theory Spec2Isabelle
  imports Main "HOL-Library.Word" "HOL-Library.Signed_Division"
begin

unbundle bit_operations_syntax

section \<open>C integers\<close>

text \<open>
  The stream's positions and lengths are C \<open>long\<close> values (64 bits, two's complement).
  They are modelled as \<open>int\<close>, and every arithmetic operation of the source is
  followed by the wrap-around into the range of \<open>long\<close>. Division truncates
  towards zero, as in C.
\<close>

type_synonym long = int
type_synonym byte = "8 word"

definition LONG_MAX :: long where
  "LONG_MAX = 9223372036854775807"

definition LONG_MIN :: long where
  "LONG_MIN = - 9223372036854775808"

definition wrap_long :: "int \<Rightarrow> long" where
  "wrap_long x = (x + 9223372036854775808) mod 18446744073709551616 - 9223372036854775808"

definition ladd :: "long \<Rightarrow> long \<Rightarrow> long" where
  "ladd a b = wrap_long (a + b)"

definition lsub :: "long \<Rightarrow> long \<Rightarrow> long" where
  "lsub a b = wrap_long (a - b)"

definition lmul :: "long \<Rightarrow> long \<Rightarrow> long" where
  "lmul a b = wrap_long (a * b)"

definition ldiv_quot :: "long \<Rightarrow> long \<Rightarrow> long" where
  "ldiv_quot a b = wrap_long (a sdiv b)"

definition ldiv_rem :: "long \<Rightarrow> long \<Rightarrow> long" where
  "ldiv_rem a b = wrap_long (a smod b)"

section \<open>System constants and error numbers\<close>

datatype errno = EINVAL | EPERM | EFBIG | ERANGE | ENOTSUP | ENOMEM | EIO | EACCES
  | ENOENT | EOVERFLOW

definition PROT_READ :: int where "PROT_READ = 1"
definition PROT_WRITE :: int where "PROT_WRITE = 2"
definition O_RDONLY :: int where "O_RDONLY = 0"
definition O_WRONLY :: int where "O_WRONLY = 1"
definition O_RDWR :: int where "O_RDWR = 2"
definition O_ACCMODE :: int where "O_ACCMODE = 3"
definition O_CREAT :: int where "O_CREAT = 64"
definition O_TRUNC :: int where "O_TRUNC = 512"

section \<open>The stream control block\<close>

text \<open>
  \<open>struct stream\<close>. The pointer \<open>buf\<close> is either \<open>MAP_FAILED\<close> (\<open>None\<close>) or the
  address of a mapping; a mapping is identified by the region of the file it shows,
  as (file offset, length). The fields \<open>end\<close> and \<open>mod\<close> are named
  \<open>end_s\<close> and \<open>mod_s\<close>.
\<close>

record stream =
  buf :: "(int \<times> int) option"
  off :: long
  len :: long
  brk :: long
  blk :: long
  cur :: long
  end_s :: long
  siz :: long
  mod_s :: int
  des :: int

section \<open>The operating system\<close>

text \<open>
  The file behind the descriptor is a sequence of \<open>fsize\<close> bytes, \<open>fdata\<close> giving the
  byte at each position. No other process changes the file. A shared mapping of the
  region (offset, length) shows the bytes of the file at offset, offset + 1, ...: a store
  through the mapping is a store into the file.

  Every system call that the stream checks (\<open>ftruncate\<close>, \<open>mmap\<close>, \<open>msync\<close>) may
  fail for reasons of the system's own: \<open>oserr\<close> lists the outcomes of the coming calls,
  \<open>Some e\<close> for a failure with error number \<open>e\<close>, and a call on the empty list
  succeeds. Besides that, as POSIX has it, \<open>ftruncate\<close> rejects a negative length
  (\<open>EINVAL\<close>) and \<open>mmap\<close> rejects a length that is not positive and a negative offset
  (\<open>EINVAL\<close>), and a region of a regular file whose offset plus length exceeds the
  largest file offset (\<open>EOVERFLOW\<close>).
\<close>

record world =
  fdata :: "int \<Rightarrow> byte"
  fsize :: int
  oserr :: "errno option list"

definition os_next :: "world \<Rightarrow> errno option \<times> world" where
  "os_next w = (case oserr w of [] \<Rightarrow> (None, w) | e # es \<Rightarrow> (e, w\<lparr>oserr := es\<rparr>))"

definition os_ftruncate :: "world \<Rightarrow> int \<Rightarrow> long \<Rightarrow> errno option \<times> world" where
  "os_ftruncate w fd n =
     (case os_next w of
        (Some e, w1) \<Rightarrow> (Some e, w1)
      | (None, w1) \<Rightarrow>
          if n < 0 then (Some EINVAL, w1)
          else (None, w1\<lparr>fsize := n,
                  fdata := (\<lambda>p. if p < n \<and> p < fsize w1 then fdata w1 p else 0)\<rparr>))"

definition os_mmap :: "world \<Rightarrow> long \<Rightarrow> int \<Rightarrow> int \<Rightarrow> long \<Rightarrow> (errno + (int \<times> int)) \<times> world" where
  "os_mmap w n prot fd offset =
     (case os_next w of
        (Some e, w1) \<Rightarrow> (Inl e, w1)
      | (None, w1) \<Rightarrow>
          if n \<le> 0 \<or> offset < 0 then (Inl EINVAL, w1)
          else if offset + n > LONG_MAX then (Inl EOVERFLOW, w1)
          else (Inr (offset, n), w1))"

definition os_msync :: "world \<Rightarrow> (int \<times> int) \<Rightarrow> long \<Rightarrow> errno option \<times> world" where
  "os_msync w m n = os_next w"

text \<open>
  The byte copy \<open>for (cnt = n; cnt > 0; cnt--) *dst++ = *src++\<close>: memory is a function
  from addresses (relative to a base pointer) to bytes.
\<close>

fun copy_bytes :: "nat \<Rightarrow> (int \<Rightarrow> byte) \<Rightarrow> int \<Rightarrow> (int \<Rightarrow> byte) \<Rightarrow> int \<Rightarrow> (int \<Rightarrow> byte)" where
  "copy_bytes 0 dmem dst smem src = dmem"
| "copy_bytes (Suc cnt) dmem dst smem src =
     copy_bytes cnt (dmem(dst := smem src)) (dst + 1) smem (src + 1)"

section \<open>The window\<close>

text \<open>The test \<open>s->cur < s->off || s->cur >= s->brk || s->buf == MAP_FAILED\<close>.\<close>

definition window_stale :: "stream \<Rightarrow> bool" where
  "window_stale s \<longleftrightarrow> cur s < off s \<or> cur s \<ge> brk s \<or> buf s = None"

text \<open>Releasing the held window and computing the bounds of the next one.\<close>

definition new_window :: "stream \<Rightarrow> stream" where
  "new_window s =
     (let s1 = s\<lparr>buf := None\<rparr>;
          s2 = s1\<lparr>off := lmul (ldiv_quot (cur s1) (blk s1)) (blk s1)\<rparr>;
          s3 = s2\<lparr>len := blk s2\<rparr>
      in s3\<lparr>brk := ladd (off s3) (len s3)\<rparr>)"

text \<open>The call of \<open>mmap\<close> and its check.\<close>

definition map_window :: "world \<Rightarrow> stream \<Rightarrow> errno option \<times> stream \<times> world" where
  "map_window w s =
     (case os_mmap w (len s) (mod_s s) (des s) (off s) of
        (Inl e, w1) \<Rightarrow> (Some e, s\<lparr>buf := None\<rparr>, w1)
      | (Inr m, w1) \<Rightarrow> (None, s\<lparr>buf := Some m\<rparr>, w1))"

text \<open>
  A division by zero, or of \<open>LONG_MIN\<close> by \<open>-1\<close>, traps: the call does not return,
  which is the value \<open>None\<close>.
\<close>

definition div_traps :: "long \<Rightarrow> long \<Rightarrow> bool" where
  "div_traps a b \<longleftrightarrow> b = 0 \<or> (a = LONG_MIN \<and> b = - 1)"

text \<open>The page-fault block of \<open>stream_write\<close>: the file grows to the window's end.\<close>

definition write_fault :: "world \<Rightarrow> stream \<Rightarrow> (errno option \<times> stream \<times> world) option" where
  "write_fault w s =
     (if window_stale s then
        if div_traps (cur s) (blk s) then None
        else
          let s1 = new_window s in
          if brk s1 > siz s1 then
            (case os_ftruncate w (des s1) (brk s1) of
               (Some e, w1) \<Rightarrow> Some (Some e, s1, w1)
             | (None, w1) \<Rightarrow> Some (map_window w1 (s1\<lparr>siz := brk s1\<rparr>)))
          else Some (map_window w s1)
      else Some (None, s, w))"

text \<open>The page-fault block of \<open>stream_read\<close>: the window is cut at the file's size.\<close>

definition read_fault :: "world \<Rightarrow> stream \<Rightarrow> (errno option \<times> stream \<times> world) option" where
  "read_fault w s =
     (if window_stale s then
        if div_traps (cur s) (blk s) then None
        else
          let s1 = new_window s;
              s2 = (if brk s1 > siz s1 then
                      let s' = s1\<lparr>len := lsub (siz s1) (off s1)\<rparr>
                      in s'\<lparr>brk := ladd (off s') (len s')\<rparr>
                    else s1)
          in Some (map_window w s2)
      else Some (None, s, w))"

text \<open>
  An access through \<open>buf\<close> at index \<open>i\<close> for \<open>n > 0\<close> bytes needs a mapping that holds
  the indices \<open>i, ..., i + n - 1\<close>; any other access faults (\<open>None\<close>). The result is
  the position in the file of the first byte accessed.
\<close>

definition map_access :: "(int \<times> int) option \<Rightarrow> long \<Rightarrow> long \<Rightarrow> int option" where
  "map_access b i n =
     (case b of
        None \<Rightarrow> if n > 0 then None else Some i
      | Some (mo, ml) \<Rightarrow>
          if n > 0 \<and> \<not> (0 \<le> i \<and> i + n \<le> ml) then None else Some (mo + i))"

section \<open>Writing\<close>

text \<open>
  One turn of the writing loop, entered with \<open>s->cur < brk\<close>: the page-fault block,
  then the copy into the window and the update of the cursor, the counter and the end.
  The result holds the error of a failed system call, if any, the counter, the control
  block and the file.
\<close>

definition write_body ::
  "world \<Rightarrow> stream \<Rightarrow> (int \<Rightarrow> byte) \<Rightarrow> long \<Rightarrow> long \<Rightarrow> (errno option \<times> long \<times> stream \<times> world) option" where
  "write_body w s src wbrk n =
     (case write_fault w s of
        None \<Rightarrow> None
      | Some (Some e, s1, w1) \<Rightarrow> Some (Some e, n, s1, w1)
      | Some (None, s1, w1) \<Rightarrow>
          let wrl = lsub (if wbrk < brk s1 then wbrk else brk s1) (cur s1) in
          (case map_access (buf s1) (lsub (cur s1) (off s1)) wrl of
             None \<Rightarrow> None
           | Some dst \<Rightarrow>
               let w2 = w1\<lparr>fdata := copy_bytes (nat wrl) (fdata w1) dst src n\<rparr>;
                   s2 = s1\<lparr>cur := ladd (cur s1) wrl\<rparr>;
                   n2 = ladd n wrl;
                   s3 = (if cur s2 > end_s s2 then s2\<lparr>end_s := cur s2\<rparr> else s2)
               in Some (None, n2, s3, w2)))"

text \<open>
  The loop \<open>while (s->cur < brk)\<close>. It is a partial function: \<open>None\<close> is a call that
  does not return (a trap, a fault, or a loop without end).
\<close>

partial_function (option) write_loop ::
  "world \<Rightarrow> stream \<Rightarrow> (int \<Rightarrow> byte) \<Rightarrow> long \<Rightarrow> long \<Rightarrow> ((errno + long) \<times> stream \<times> world) option" where
  "write_loop w s src wbrk n =
     (if cur s < wbrk then
        (case write_body w s src wbrk n of
           None \<Rightarrow> None
         | Some (Some e, n1, s1, w1) \<Rightarrow> Some (Inl e, s1, w1)
         | Some (None, n1, s1, w1) \<Rightarrow> write_loop w1 s1 src wbrk n1)
      else Some (Inr n, s, w))"

declare write_loop.simps [code]

text \<open>
  \<open>stream_write\<close>. A result \<open>Inl e\<close> is the return value \<open>-1\<close> with \<open>errno\<close>
  set to \<open>e\<close>; the stream returned is the control block after the call.
\<close>

definition stream_write ::
  "world \<Rightarrow> stream option \<Rightarrow> (int \<Rightarrow> byte) option \<Rightarrow> long
     \<Rightarrow> ((errno + long) \<times> stream option \<times> world) option" where
  "stream_write w sp bufp n =
     (case sp of
        None \<Rightarrow> Some (Inl EINVAL, None, w)
      | Some s \<Rightarrow>
          (case bufp of
             None \<Rightarrow> Some (Inl EINVAL, Some s, w)
           | Some src \<Rightarrow>
               if n < 0 then Some (Inl EINVAL, Some s, w)
               else if mod_s s AND PROT_WRITE \<noteq> PROT_WRITE then Some (Inl EPERM, Some s, w)
               else if cur s > lsub LONG_MAX n then Some (Inl EFBIG, Some s, w)
               else
                 (case write_loop w s src (ladd (cur s) n) 0 of
                    None \<Rightarrow> None
                  | Some (r, s1, w1) \<Rightarrow> Some (r, Some s1, w1))))"

section \<open>Reading\<close>

text \<open>One turn of the reading loop; the last component is the caller's buffer.\<close>

definition read_body ::
  "world \<Rightarrow> stream \<Rightarrow> (int \<Rightarrow> byte) \<Rightarrow> long \<Rightarrow> long
     \<Rightarrow> (errno option \<times> long \<times> stream \<times> world \<times> (int \<Rightarrow> byte)) option" where
  "read_body w s dst rbrk n =
     (case read_fault w s of
        None \<Rightarrow> None
      | Some (Some e, s1, w1) \<Rightarrow> Some (Some e, n, s1, w1, dst)
      | Some (None, s1, w1) \<Rightarrow>
          let rdl = lsub (if rbrk < brk s1 then rbrk else brk s1) (cur s1) in
          (case map_access (buf s1) (lsub (cur s1) (off s1)) rdl of
             None \<Rightarrow> None
           | Some src \<Rightarrow>
               let dst2 = copy_bytes (nat rdl) dst n (fdata w1) src;
                   s2 = s1\<lparr>cur := ladd (cur s1) rdl\<rparr>;
                   n2 = ladd n rdl
               in Some (None, n2, s2, w1, dst2)))"

partial_function (option) read_loop ::
  "world \<Rightarrow> stream \<Rightarrow> (int \<Rightarrow> byte) \<Rightarrow> long \<Rightarrow> long
     \<Rightarrow> ((errno + long) \<times> stream \<times> world \<times> (int \<Rightarrow> byte)) option" where
  "read_loop w s dst rbrk n =
     (if cur s < rbrk then
        (case read_body w s dst rbrk n of
           None \<Rightarrow> None
         | Some (Some e, n1, s1, w1, dst1) \<Rightarrow> Some (Inl e, s1, w1, dst1)
         | Some (None, n1, s1, w1, dst1) \<Rightarrow> read_loop w1 s1 dst1 rbrk n1)
      else Some (Inr n, s, w, dst))"

declare read_loop.simps [code]

definition stream_read ::
  "world \<Rightarrow> stream option \<Rightarrow> (int \<Rightarrow> byte) option \<Rightarrow> long
     \<Rightarrow> ((errno + long) \<times> stream option \<times> world \<times> (int \<Rightarrow> byte) option) option" where
  "stream_read w sp bufp n =
     (case sp of
        None \<Rightarrow> Some (Inl EINVAL, None, w, bufp)
      | Some s \<Rightarrow>
          (case bufp of
             None \<Rightarrow> Some (Inl EINVAL, Some s, w, None)
           | Some dst \<Rightarrow>
               if n < 0 then Some (Inl EINVAL, Some s, w, Some dst)
               else if mod_s s AND PROT_READ \<noteq> PROT_READ then Some (Inl EPERM, Some s, w, Some dst)
               else
                 let n1 = (if cur s > lsub (end_s s) n then lsub (end_s s) (cur s) else n) in
                 (case read_loop w s dst (ladd (cur s) n1) 0 of
                    None \<Rightarrow> None
                  | Some (r, s1, w1, dst1) \<Rightarrow> Some (r, Some s1, w1, Some dst1))))"

section \<open>Seek, tell, end, sync, close\<close>

definition stream_seek :: "stream option \<Rightarrow> long \<Rightarrow> (errno + long) \<times> stream option" where
  "stream_seek sp pos =
     (case sp of
        None \<Rightarrow> (Inl EINVAL, None)
      | Some s \<Rightarrow>
          if cur s \<noteq> pos then
            let pos1 = (if pos < 0 then ladd pos (end_s s) else pos) in
            if pos1 < 0 \<or> pos1 > end_s s then (Inl ERANGE, Some s)
            else (Inr pos1, Some (s\<lparr>cur := pos1\<rparr>))
          else (Inr pos, Some s))"

definition stream_tell :: "stream option \<Rightarrow> errno + long" where
  "stream_tell sp = (case sp of None \<Rightarrow> Inl EINVAL | Some s \<Rightarrow> Inr (cur s))"

definition stream_end :: "stream option \<Rightarrow> errno + long" where
  "stream_end sp = (case sp of None \<Rightarrow> Inl EINVAL | Some s \<Rightarrow> Inr (end_s s))"

definition stream_sync :: "world \<Rightarrow> stream option \<Rightarrow> (errno + int) \<times> stream option \<times> world" where
  "stream_sync w sp =
     (case sp of
        None \<Rightarrow> (Inl EINVAL, None, w)
      | Some s \<Rightarrow>
          (case buf s of
             None \<Rightarrow> (Inr 0, Some s, w)
           | Some m \<Rightarrow>
               (case os_msync w m (len s) of
                  (Some e, w1) \<Rightarrow> (Inl e, Some s, w1)
                | (None, w1) \<Rightarrow> (Inr 0, Some s, w1))))"

text \<open>
  \<open>stream_close\<close> returns nothing and frees the control block: what is left is the file.
\<close>

definition stream_close :: "world \<Rightarrow> stream option \<Rightarrow> world" where
  "stream_close w sp =
     (case sp of
        None \<Rightarrow> w
      | Some s \<Rightarrow> if end_s s < siz s then snd (os_ftruncate w (des s) (end_s s)) else w)"

text \<open>The value a C caller sees: \<open>-1\<close> for a failure.\<close>

definition retval :: "errno + int \<Rightarrow> int" where
  "retval r = (case r of Inl e \<Rightarrow> - 1 | Inr v \<Rightarrow> v)"

section \<open>Opening\<close>

text \<open>
  What \<open>stream_open\<close> asks of the system: the page size, the descriptor or the error of
  \<open>open\<close> for a path and its flags, the size and preferred block size that \<open>fstat\<close>
  reports for a descriptor, and whether \<open>malloc\<close> fails. A file's size is not negative.
\<close>

record stat =
  st_size :: nat
  st_blksize :: int

record sysenv =
  sc_pagesize :: int
  sys_open :: "string \<Rightarrow> int \<Rightarrow> errno + nat"
  sys_fstat :: "int \<Rightarrow> errno + stat"
  sys_malloc :: "errno option"

text \<open>The character at an index of a C string, the terminating NUL included.\<close>

definition char_at :: "string \<Rightarrow> nat \<Rightarrow> char" where
  "char_at s i = (if i < length s then s ! i else CHR 0x00)"

definition open_flags :: "string \<Rightarrow> int" where
  "open_flags mode =
     (if char_at mode 1 = CHR ''+''
      then (if char_at mode 0 = CHR ''w'' then O_RDWR OR O_CREAT OR O_TRUNC else O_RDWR)
      else (if char_at mode 0 = CHR ''w'' then O_WRONLY OR O_CREAT OR O_TRUNC else O_RDONLY))"

definition prot_of_flags :: "int \<Rightarrow> int" where
  "prot_of_flags oflg =
     (if oflg AND O_ACCMODE = O_RDONLY then PROT_READ
      else if oflg AND O_ACCMODE = O_WRONLY then PROT_WRITE
      else PROT_READ OR PROT_WRITE)"

text \<open>
  The choice of the block size from the page size and \<open>st_blksize\<close>, which has the
  width of a \<open>long\<close>: the cast \<open>(long)inf.st_blksize\<close> keeps the value.
\<close>

definition block_size :: "long \<Rightarrow> int \<Rightarrow> long" where
  "block_size page blksize =
     (if blksize < LONG_MAX then
        let lval = blksize in
        if lval > page then
          if ldiv_rem lval page = 0 \<and> ldiv_quot lval page > 1 then lval else page
        else page
      else page)"

definition stream_open :: "sysenv \<Rightarrow> string option \<Rightarrow> string \<Rightarrow> errno + stream" where
  "stream_open env path mode =
     (case path of
        None \<Rightarrow> Inl EINVAL
      | Some p \<Rightarrow>
          if char_at mode 0 \<noteq> CHR ''r'' \<and> char_at mode 0 \<noteq> CHR ''w'' then Inl EINVAL
          else
            let page = wrap_long (sc_pagesize env) in
            if page < 1 then Inl ENOTSUP
            else
              let oflg = open_flags mode in
              (case sys_open env p oflg of
                 Inl e \<Rightarrow> Inl e
               | Inr fd \<Rightarrow>
                   (case sys_fstat env (int fd) of
                      Inl e \<Rightarrow> Inl e
                    | Inr st \<Rightarrow>
                        if int (st_size st) > LONG_MAX then Inl EFBIG
                        else
                          let lval = wrap_long (int (st_size st)) in
                          (case sys_malloc env of
                             Some e \<Rightarrow> Inl e
                           | None \<Rightarrow>
                               Inr \<lparr>buf = None, off = 0, len = 0, brk = 0,
                                    blk = block_size page (st_blksize st),
                                    cur = 0, end_s = lval, siz = lval,
                                    mod_s = prot_of_flags oflg, des = int fd\<rparr>))))"

section \<open>Invariants\<close>

text \<open>The positions of a stream: \<open>0 \<le> cursor \<le> end \<le> tracked file size\<close>.\<close>

definition pos_inv :: "stream \<Rightarrow> bool" where
  "pos_inv s \<longleftrightarrow> 0 \<le> cur s \<and> cur s \<le> end_s s \<and> end_s s \<le> siz s"

text \<open>
  A held window is the mapping of the region that \<open>off\<close> and \<open>len\<close> name, it is not
  empty, \<open>brk\<close> is its end, and it lies inside the tracked size of the file.
\<close>

definition window_ok :: "stream \<Rightarrow> bool" where
  "window_ok s \<longleftrightarrow>
     (case buf s of
        None \<Rightarrow> True
      | Some m \<Rightarrow> m = (off s, len s) \<and> 0 \<le> off s \<and> 0 < len s
                    \<and> brk s = off s + len s \<and> brk s \<le> siz s)"

text \<open>The invariant of the control block between two calls.\<close>

definition stream_inv :: "stream \<Rightarrow> bool" where
  "stream_inv s \<longleftrightarrow>
     0 < blk s \<and> blk s \<le> LONG_MAX \<and> pos_inv s \<and> siz s \<le> LONG_MAX \<and> window_ok s"

text \<open>The stream's view of the file's size is not beyond the file.\<close>

definition coupled :: "stream \<Rightarrow> world \<Rightarrow> bool" where
  "coupled s w \<longleftrightarrow> siz s \<le> fsize w"

text \<open>No coming system call fails for the system's own reasons.\<close>

definition os_ok :: "world \<Rightarrow> bool" where
  "os_ok w \<longleftrightarrow> (\<forall>r \<in> set (oserr w). r = None)"

text \<open>
  What a page-fault block leaves behind: the invariant, the cursor and the end where they
  were, a window around the cursor when it succeeded, an error of a system call when it
  failed, and the bytes of the file below the cursor as they were.
\<close>

definition fault_post :: "world \<Rightarrow> stream \<Rightarrow> errno option \<times> stream \<times> world \<Rightarrow> bool" where
  "fault_post w s res =
     (case res of (r, s1, w1) \<Rightarrow>
        stream_inv s1 \<and> cur s1 = cur s \<and> end_s s1 = end_s s \<and> blk s1 = blk s
        \<and> mod_s s1 = mod_s s \<and> des s1 = des s \<and> siz s \<le> siz s1
        \<and> set (oserr w1) \<subseteq> set (oserr w)
        \<and> (case r of
              Some e \<Rightarrow> Some e \<in> set (oserr w) \<or> e = EOVERFLOW
            | None \<Rightarrow> buf s1 \<noteq> None \<and> off s1 \<le> cur s \<and> cur s < brk s1)
        \<and> (os_ok w \<and> cur s - cur s mod blk s + blk s \<le> LONG_MAX \<longrightarrow> r = None)
        \<and> (coupled s w \<longrightarrow> coupled s1 w1 \<and> (\<forall>p. p < cur s \<longrightarrow> fdata w1 p = fdata w p)))"

text \<open>What one turn of the writing loop leaves behind.\<close>

definition write_turn_post ::
  "world \<Rightarrow> stream \<Rightarrow> (int \<Rightarrow> byte) \<Rightarrow> long \<Rightarrow> long
     \<Rightarrow> errno option \<times> long \<times> stream \<times> world \<Rightarrow> bool" where
  "write_turn_post w s src wbrk n res =
     (case res of (r, n1, s1, w1) \<Rightarrow>
        stream_inv s1 \<and> blk s1 = blk s \<and> mod_s s1 = mod_s s \<and> siz s \<le> siz s1
        \<and> set (oserr w1) \<subseteq> set (oserr w)
        \<and> cur s \<le> cur s1 \<and> cur s1 \<le> wbrk \<and> n1 = n + (cur s1 - cur s)
        \<and> end_s s1 = max (end_s s) (cur s1)
        \<and> (case r of
              Some e \<Rightarrow> (Some e \<in> set (oserr w) \<or> e = EOVERFLOW) \<and> cur s1 = cur s
            | None \<Rightarrow> cur s < cur s1 \<and> buf s1 \<noteq> None \<and> off s1 < cur s1 \<and> cur s1 \<le> brk s1)
        \<and> (os_ok w \<and> cur s - cur s mod blk s + blk s \<le> LONG_MAX \<longrightarrow> r = None)
        \<and> (coupled s w \<longrightarrow>
              coupled s1 w1 \<and> (\<forall>p. p < cur s \<longrightarrow> fdata w1 p = fdata w p)
              \<and> (\<forall>p. cur s \<le> p \<and> p < cur s1 \<longrightarrow> fdata w1 p = src (n + (p - cur s)))))"

text \<open>
  What the writing loop, entered with the counter \<open>n\<close> and the break \<open>wbrk\<close>, leaves
  behind when it returns \<open>res\<close>.
\<close>

definition write_post ::
  "world \<Rightarrow> stream \<Rightarrow> (int \<Rightarrow> byte) \<Rightarrow> long \<Rightarrow> long \<Rightarrow> (errno + long) \<times> stream \<times> world \<Rightarrow> bool" where
  "write_post w s src wbrk n res =
     (case res of (r, s1, w1) \<Rightarrow>
        stream_inv s1 \<and> blk s1 = blk s \<and> mod_s s1 = mod_s s \<and> siz s \<le> siz s1
        \<and> set (oserr w1) \<subseteq> set (oserr w)
        \<and> cur s \<le> cur s1 \<and> cur s1 \<le> wbrk \<and> end_s s1 = max (end_s s) (cur s1)
        \<and> (case r of
              Inl e \<Rightarrow> Some e \<in> set (oserr w) \<or> e = EOVERFLOW
            | Inr k \<Rightarrow> k = n + (wbrk - cur s) \<and> cur s1 = wbrk
                       \<and> (cur s < wbrk \<longrightarrow> buf s1 \<noteq> None \<and> off s1 < cur s1 \<and> cur s1 \<le> brk s1))
        \<and> (\<not> cur s < wbrk \<longrightarrow> r = Inr n \<and> s1 = s \<and> w1 = w)
        \<and> (os_ok w \<and> wbrk + blk s \<le> LONG_MAX \<longrightarrow> r = Inr (n + (wbrk - cur s)))
        \<and> (coupled s w \<longrightarrow>
              coupled s1 w1 \<and> (\<forall>p. p < cur s \<longrightarrow> fdata w1 p = fdata w p)
              \<and> (\<forall>p. cur s \<le> p \<and> p < cur s1 \<longrightarrow> fdata w1 p = src (n + (p - cur s)))))"

text \<open>What one turn of the reading loop leaves behind.\<close>

definition read_turn_post ::
  "world \<Rightarrow> stream \<Rightarrow> (int \<Rightarrow> byte) \<Rightarrow> long \<Rightarrow> long
     \<Rightarrow> errno option \<times> long \<times> stream \<times> world \<times> (int \<Rightarrow> byte) \<Rightarrow> bool" where
  "read_turn_post w s dst rbrk n res =
     (case res of (r, n1, s1, w1, dst1) \<Rightarrow>
        stream_inv s1 \<and> blk s1 = blk s \<and> mod_s s1 = mod_s s \<and> siz s1 = siz s
        \<and> end_s s1 = end_s s \<and> fdata w1 = fdata w \<and> fsize w1 = fsize w
        \<and> set (oserr w1) \<subseteq> set (oserr w)
        \<and> cur s \<le> cur s1 \<and> cur s1 \<le> rbrk \<and> n1 = n + (cur s1 - cur s)
        \<and> (case r of
              Some e \<Rightarrow> (Some e \<in> set (oserr w) \<or> e = EOVERFLOW) \<and> cur s1 = cur s
            | None \<Rightarrow> cur s < cur s1 \<and> buf s1 \<noteq> None \<and> off s1 < cur s1 \<and> cur s1 \<le> brk s1)
        \<and> (os_ok w \<and> cur s - cur s mod blk s + blk s \<le> LONG_MAX \<longrightarrow> r = None)
        \<and> (\<forall>i. i < n \<or> n1 \<le> i \<longrightarrow> dst1 i = dst i)
        \<and> (\<forall>i. n \<le> i \<and> i < n1 \<longrightarrow> dst1 i = fdata w (cur s + (i - n))))"

text \<open>
  What the reading loop, entered with the counter \<open>n\<close> and the break \<open>rbrk\<close>, leaves
  behind when it returns \<open>res\<close>.
\<close>

definition read_post ::
  "world \<Rightarrow> stream \<Rightarrow> (int \<Rightarrow> byte) \<Rightarrow> long \<Rightarrow> long
     \<Rightarrow> (errno + long) \<times> stream \<times> world \<times> (int \<Rightarrow> byte) \<Rightarrow> bool" where
  "read_post w s dst rbrk n res =
     (case res of (r, s1, w1, dst1) \<Rightarrow>
        stream_inv s1 \<and> blk s1 = blk s \<and> mod_s s1 = mod_s s \<and> siz s1 = siz s
        \<and> end_s s1 = end_s s \<and> fdata w1 = fdata w \<and> fsize w1 = fsize w
        \<and> set (oserr w1) \<subseteq> set (oserr w)
        \<and> cur s \<le> cur s1 \<and> cur s1 \<le> rbrk
        \<and> (case r of
              Inl e \<Rightarrow> Some e \<in> set (oserr w) \<or> e = EOVERFLOW
            | Inr k \<Rightarrow> k = n + (rbrk - cur s) \<and> cur s1 = rbrk
                       \<and> (cur s < rbrk \<longrightarrow> buf s1 \<noteq> None \<and> off s1 < cur s1 \<and> cur s1 \<le> brk s1))
        \<and> (\<not> cur s < rbrk \<longrightarrow> r = Inr n \<and> s1 = s \<and> w1 = w \<and> dst1 = dst)
        \<and> (os_ok w \<and> rbrk + blk s \<le> LONG_MAX \<longrightarrow> r = Inr (n + (rbrk - cur s)))
        \<and> (\<forall>i. i < n \<or> n + (cur s1 - cur s) \<le> i \<longrightarrow> dst1 i = dst i)
        \<and> (\<forall>i. n \<le> i \<and> i < n + (cur s1 - cur s) \<longrightarrow> dst1 i = fdata w (cur s + (i - n))))"

section \<open>Example streams\<close>

text \<open>A stream whose end is at 100, as after opening a file of 100 bytes for reading.\<close>

definition seek_demo :: stream where
  "seek_demo = \<lparr>buf = None, off = 0, len = 0, brk = 0, blk = 4096, cur = 0, end_s = 100,
     siz = 100, mod_s = 1, des = 3\<rparr>"

section \<open>The states a stream can reach\<close>

text \<open>
  A control block is reachable when \<open>stream_open\<close> returned it, or when a call of
  \<open>stream_write\<close>, \<open>stream_read\<close>, \<open>stream_seek\<close> or \<open>stream_sync\<close> on a reachable
  control block left it behind, whatever the call returned, on whatever file. The
  lengths are values of type \<open>long\<close>.
\<close>

definition is_long :: "int \<Rightarrow> bool" where
  "is_long x \<longleftrightarrow> LONG_MIN \<le> x \<and> x \<le> LONG_MAX"

inductive reachable :: "stream \<Rightarrow> bool" where
  reach_open: "stream_open env path mode = Inr s \<Longrightarrow> reachable s"
| reach_write: "reachable s \<Longrightarrow> is_long n \<Longrightarrow>
     stream_write w (Some s) srcp n = Some (r, Some s1, w1) \<Longrightarrow> reachable s1"
| reach_read: "reachable s \<Longrightarrow> is_long n \<Longrightarrow>
     stream_read w (Some s) dstp n = Some (r, Some s1, w1, dstp1) \<Longrightarrow> reachable s1"
| reach_seek: "reachable s \<Longrightarrow> stream_seek (Some s) pos = (r, Some s1) \<Longrightarrow> reachable s1"
| reach_sync: "reachable s \<Longrightarrow> stream_sync w (Some s) = (z, Some s1, w1) \<Longrightarrow> reachable s1"

section \<open>A round trip\<close>

text \<open>
  The calls of a caller that seeks to \<open>p\<close>, writes \<open>n\<close> bytes, seeks to \<open>p\<close> again and
  reads \<open>n\<close> bytes: the results of the four calls, and the first \<open>n\<close> bytes of the
  buffer that was read into.
\<close>

definition round_trip ::
  "world \<Rightarrow> stream \<Rightarrow> long \<Rightarrow> (int \<Rightarrow> byte) \<Rightarrow> (int \<Rightarrow> byte) \<Rightarrow> long
     \<Rightarrow> ((errno + long) \<times> (errno + long) \<times> (errno + long) \<times> (errno + long) \<times> byte list) option" where
  "round_trip w s p src dst n =
     (case stream_seek (Some s) p of (k1, sp1) \<Rightarrow>
        (case stream_write w sp1 (Some src) n of
           None \<Rightarrow> None
         | Some (wr, sp2, w2) \<Rightarrow>
             (case stream_seek sp2 p of (k2, sp3) \<Rightarrow>
                (case stream_read w2 sp3 (Some dst) n of
                   None \<Rightarrow> None
                 | Some (rd, sp4, w4, dp) \<Rightarrow>
                     Some (k1, wr, k2, rd,
                       (case dp of None \<Rightarrow> [] | Some d \<Rightarrow> map d [0..n - 1]))))))"

section \<open>More example streams and files\<close>

text \<open>
  A system with pages of 4096 bytes, where \<open>open\<close> gives descriptor 3 for a file of 5000
  bytes whose preferred block size is the page size; the stream that \<open>stream_open\<close>
  returns there for the mode \<open>r+\<close>; and the file, 5000 zero bytes, on a system where no
  call fails.
\<close>

definition demo_env :: sysenv where
  "demo_env = \<lparr>sc_pagesize = 4096, sys_open = (\<lambda>p f. Inr 3),
     sys_fstat = (\<lambda>fd. Inr \<lparr>st_size = 5000, st_blksize = 4096\<rparr>), sys_malloc = None\<rparr>"

definition rw_demo :: stream where
  "rw_demo = \<lparr>buf = None, off = 0, len = 0, brk = 0, blk = 4096, cur = 0, end_s = 5000,
     siz = 5000, mod_s = 3, des = 3\<rparr>"

definition file_demo :: world where
  "file_demo = \<lparr>fdata = (\<lambda>p. 0), fsize = 5000, oserr = []\<rparr>"

text \<open>The bytes \<open>A\<close>, \<open>B\<close>, \<open>C\<close>, ... to write, and a zeroed buffer to read into.\<close>

definition demo_bytes :: "int \<Rightarrow> byte" where
  "demo_bytes i = word_of_int (65 + i)"

definition demo_dst :: "int \<Rightarrow> byte" where
  "demo_dst i = 0"

text \<open>The same stream on a file of 100 bytes, and that file.\<close>

definition small_demo :: stream where
  "small_demo = rw_demo\<lparr>end_s := 100, siz := 100\<rparr>"

definition small_file :: world where
  "small_file = file_demo\<lparr>fsize := 100\<rparr>"

text \<open>The stream that \<open>stream_open\<close> returns for a new file in the mode \<open>w+\<close>.\<close>

definition fresh_demo :: stream where
  "fresh_demo = rw_demo\<lparr>end_s := 0, siz := 0\<rparr>"

text \<open>The stream \<open>rw_demo\<close> holding the window of the first block.\<close>

definition win_demo :: stream where
  "win_demo = rw_demo\<lparr>buf := Some (0, 4096), len := 4096, brk := 4096, cur := 10\<rparr>"

text \<open>A system where the file is new and its preferred block size is two pages.\<close>

definition big_env :: sysenv where
  "big_env = demo_env\<lparr>sys_fstat := (\<lambda>fd. Inr \<lparr>st_size = 0, st_blksize = 8192\<rparr>)\<rparr>"

text \<open>A stream on a file of the largest size, its cursor 7 bytes before the end.\<close>

definition big_demo :: stream where
  "big_demo = rw_demo\<lparr>cur := 9223372036854775800, end_s := 9223372036854775807,
     siz := 9223372036854775807\<rparr>"

section \<open>Arithmetic and the window\<close>

lemma wrap_long_id: "LONG_MIN \<le> x \<Longrightarrow> x \<le> LONG_MAX \<Longrightarrow> wrap_long x = x"
  by (simp add: wrap_long_def LONG_MIN_def LONG_MAX_def)

lemma wrap_long_over: "LONG_MAX < x \<Longrightarrow> x \<le> 2 * LONG_MAX \<Longrightarrow> wrap_long x < 0"
  unfolding wrap_long_def LONG_MAX_def
proof -
  assume a: "9223372036854775807 < x" "x \<le> 2 * 9223372036854775807"
  have "(x + 9223372036854775808) mod 18446744073709551616 = x + 9223372036854775808 - 18446744073709551616"
    using a by (simp add: mod_pos_geq mod_pos_pos_trivial)
  then show "(x + 9223372036854775808) mod 18446744073709551616 - 9223372036854775808 < 0"
    using a by simp
qed

lemma sdiv_nonneg: "0 \<le> a \<Longrightarrow> 0 < b \<Longrightarrow> (a::int) sdiv b = a div b"
  by (simp add: signed_divide_int_def sgn_if)

lemma smod_nonneg: "0 \<le> a \<Longrightarrow> 0 < b \<Longrightarrow> (a::int) smod b = a mod b"
  by (simp add: signed_modulo_int_def sgn_if)

lemma window_base:
  assumes "0 \<le> c" "c \<le> LONG_MAX" "0 < b"
  shows "lmul (ldiv_quot c b) b = c - c mod b"
proof -
  have "c div b \<le> c div 1" using assms by (intro zdiv_mono2) simp_all
  then have q: "0 \<le> c div b" "c div b \<le> c" using assms
    by (simp_all add: pos_imp_zdiv_nonneg_iff)
  have "LONG_MIN \<le> c div b" "c div b \<le> LONG_MAX"
    using q assms by (simp_all add: LONG_MIN_def)
  then have 1: "ldiv_quot c b = c div b"
    using assms by (simp add: ldiv_quot_def sdiv_nonneg wrap_long_id)
  have 2: "c div b * b = c - c mod b" by (simp add: minus_mod_eq_div_mult)
  have m: "0 \<le> c mod b" "c mod b \<le> c" using assms
    by (simp_all add: zmod_le_nonneg_dividend)
  have "LONG_MIN \<le> c - c mod b" "c - c mod b \<le> LONG_MAX"
    unfolding LONG_MIN_def using m assms by linarith+
  then show ?thesis
    by (simp add: lmul_def 1 2 wrap_long_id)
qed

lemma window_base_bounds:
  fixes c b :: int
  assumes "0 \<le> c" "0 < b"
  shows "0 \<le> c - c mod b" "c - c mod b \<le> c" "c < c - c mod b + b"
proof -
  have m: "0 \<le> c mod b" "c mod b \<le> c" "c mod b < b" using assms
    by (simp_all add: zmod_le_nonneg_dividend)
  show "0 \<le> c - c mod b" "c - c mod b \<le> c" "c < c - c mod b + b"
    using m by linarith+
qed

text \<open>The bounds of a new window under the invariant.\<close>

lemma new_window_fields:
  "cur (new_window s) = cur s" "end_s (new_window s) = end_s s" "siz (new_window s) = siz s"
  "blk (new_window s) = blk s" "mod_s (new_window s) = mod_s s" "des (new_window s) = des s"
  "buf (new_window s) = None" "len (new_window s) = blk s"
  by (simp_all add: new_window_def Let_def)

lemma new_window_off:
  assumes "stream_inv s"
  shows "off (new_window s) = cur s - cur s mod blk s"
proof -
  have "0 \<le> cur s" "cur s \<le> LONG_MAX" "0 < blk s"
    using assms by (auto simp: stream_inv_def pos_inv_def)
  then show ?thesis by (simp add: new_window_def Let_def window_base)
qed

lemma new_window_brk: "brk (new_window s) = ladd (off (new_window s)) (blk s)"
  by (simp add: new_window_def Let_def)


subsection \<open>System calls\<close>

lemma os_next_props:
  assumes "os_next w = (r, w1)"
  shows "fdata w1 = fdata w" "fsize w1 = fsize w" "set (oserr w1) \<subseteq> set (oserr w)"
    "r = Some e \<Longrightarrow> Some e \<in> set (oserr w)" "os_ok w \<Longrightarrow> r = None"
  using assms by (auto simp: os_next_def os_ok_def split: list.splits)

lemma os_ftruncate_props:
  assumes "os_ftruncate w fd n = (r, w1)"
  shows "set (oserr w1) \<subseteq> set (oserr w)"
    "r = Some e \<Longrightarrow> (Some e \<in> set (oserr w) \<or> (e = EINVAL \<and> n < 0)) \<and> fdata w1 = fdata w \<and> fsize w1 = fsize w"
    "r = None \<Longrightarrow> fsize w1 = n \<and> 0 \<le> n \<and> (\<forall>p. p < n \<and> p < fsize w \<longrightarrow> fdata w1 p = fdata w p)"
    "os_ok w \<Longrightarrow> 0 \<le> n \<Longrightarrow> r = None"
proof -
  obtain r0 w0 where n: "os_next w = (r0, w0)" by (cases "os_next w")
  note p = os_next_props[OF n]
  show "set (oserr w1) \<subseteq> set (oserr w)"
    using assms n p(3) by (auto simp: os_ftruncate_def split: option.splits if_splits)
  show "r = Some e \<Longrightarrow> (Some e \<in> set (oserr w) \<or> (e = EINVAL \<and> n < 0)) \<and> fdata w1 = fdata w \<and> fsize w1 = fsize w"
    using assms n p(1,2) p(4)[of e] by (auto simp: os_ftruncate_def split: option.splits if_splits)
  show "r = None \<Longrightarrow> fsize w1 = n \<and> 0 \<le> n \<and> (\<forall>p. p < n \<and> p < fsize w \<longrightarrow> fdata w1 p = fdata w p)"
    using assms n p(1,2) by (auto simp: os_ftruncate_def split: option.splits if_splits)
  show "os_ok w \<Longrightarrow> 0 \<le> n \<Longrightarrow> r = None"
    using assms n p(5) by (auto simp: os_ftruncate_def split: option.splits if_splits)
qed

lemma os_mmap_props:
  assumes "os_mmap w n prot fd offset = (r, w1)"
  shows "fdata w1 = fdata w" "fsize w1 = fsize w" "set (oserr w1) \<subseteq> set (oserr w)"
    "r = Inl e \<Longrightarrow> Some e \<in> set (oserr w) \<or> e = EINVAL \<and> (n \<le> 0 \<or> offset < 0)
                      \<or> e = EOVERFLOW \<and> LONG_MAX < offset + n"
    "r = Inr m \<Longrightarrow> m = (offset, n) \<and> 0 < n \<and> 0 \<le> offset \<and> offset + n \<le> LONG_MAX"
    "os_ok w \<Longrightarrow> 0 < n \<Longrightarrow> 0 \<le> offset \<Longrightarrow> offset + n \<le> LONG_MAX \<Longrightarrow> r = Inr (offset, n)"
proof -
  obtain r0 w0 where n: "os_next w = (r0, w0)" by (cases "os_next w")
  note p = os_next_props[OF n]
  show "fdata w1 = fdata w" "fsize w1 = fsize w" "set (oserr w1) \<subseteq> set (oserr w)"
    using assms n p(1,2,3) by (auto simp: os_mmap_def split: option.splits if_splits)
  show "r = Inl e \<Longrightarrow> Some e \<in> set (oserr w) \<or> e = EINVAL \<and> (n \<le> 0 \<or> offset < 0)
                      \<or> e = EOVERFLOW \<and> LONG_MAX < offset + n"
    using assms n p(4)[of e] by (auto simp: os_mmap_def split: option.splits if_splits)
  show "r = Inr m \<Longrightarrow> m = (offset, n) \<and> 0 < n \<and> 0 \<le> offset \<and> offset + n \<le> LONG_MAX"
    using assms n by (auto simp: os_mmap_def split: option.splits if_splits)
  show "os_ok w \<Longrightarrow> 0 < n \<Longrightarrow> 0 \<le> offset \<Longrightarrow> offset + n \<le> LONG_MAX \<Longrightarrow> r = Inr (offset, n)"
    using assms n p(5) by (auto simp: os_mmap_def split: option.splits if_splits)
qed

lemma os_ok_mono: "set (oserr w1) \<subseteq> set (oserr w) \<Longrightarrow> os_ok w \<Longrightarrow> os_ok w1"
  by (auto simp: os_ok_def)


subsection \<open>Page faults\<close>

lemma map_window_props:
  assumes "map_window w s = (r, s1, w1)"
  shows "fdata w1 = fdata w" "fsize w1 = fsize w" "set (oserr w1) \<subseteq> set (oserr w)"
    "r = Some e \<Longrightarrow> s1 = s\<lparr>buf := None\<rparr> \<and> (Some e \<in> set (oserr w) \<or> e = EINVAL \<and> (len s \<le> 0 \<or> off s < 0)
                      \<or> e = EOVERFLOW \<and> LONG_MAX < off s + len s)"
    "r = None \<Longrightarrow> s1 = s\<lparr>buf := Some (off s, len s)\<rparr> \<and> 0 < len s \<and> 0 \<le> off s \<and> off s + len s \<le> LONG_MAX"
    "os_ok w \<Longrightarrow> 0 < len s \<Longrightarrow> 0 \<le> off s \<Longrightarrow> off s + len s \<le> LONG_MAX \<Longrightarrow> r = None"
proof -
  obtain r0 w0 where n: "os_mmap w (len s) (mod_s s) (des s) (off s) = (r0, w0)"
    by (cases "os_mmap w (len s) (mod_s s) (des s) (off s)")
  note p = os_mmap_props[OF n]
  show "fdata w1 = fdata w" "fsize w1 = fsize w" "set (oserr w1) \<subseteq> set (oserr w)"
    using assms n p(1,2,3) by (auto simp: map_window_def split: sum.splits)
  show "r = Some e \<Longrightarrow> s1 = s\<lparr>buf := None\<rparr> \<and> (Some e \<in> set (oserr w) \<or> e = EINVAL \<and> (len s \<le> 0 \<or> off s < 0)
                      \<or> e = EOVERFLOW \<and> LONG_MAX < off s + len s)"
    using assms n p(4)[of e] by (auto simp: map_window_def split: sum.splits)
  show "r = None \<Longrightarrow> s1 = s\<lparr>buf := Some (off s, len s)\<rparr> \<and> 0 < len s \<and> 0 \<le> off s \<and> off s + len s \<le> LONG_MAX"
    using assms n p(5) by (auto simp: map_window_def split: sum.splits)
  show "os_ok w \<Longrightarrow> 0 < len s \<Longrightarrow> 0 \<le> off s \<Longrightarrow> off s + len s \<le> LONG_MAX \<Longrightarrow> r = None"
    using assms n p(6) by (auto simp: map_window_def split: sum.splits)
qed

text \<open>A freshly computed window that was mapped (or not) satisfies the postcondition.\<close>

lemma fault_post_mapped:
  assumes inv: "stream_inv s"
    and s1: "cur s1 = cur s" "end_s s1 = end_s s" "blk s1 = blk s" "mod_s s1 = mod_s s"
      "des s1 = des s" "siz s \<le> siz s1" "siz s1 \<le> LONG_MAX"
      "off s1 = cur s - cur s mod blk s" "0 < len s1" "len s1 \<le> blk s"
      "brk s1 = off s1 + len s1" "cur s < brk s1" "brk s1 \<le> siz s1"
    and w1: "set (oserr w1) \<subseteq> set (oserr w)"
      "coupled s w \<longrightarrow> siz s1 \<le> fsize w1 \<and> (\<forall>p. p < cur s \<longrightarrow> fdata w1 p = fdata w p)"
    and m: "map_window w1 s1 = res"
  shows "fault_post w s res"
proof -
  obtain r s2 w2 where res: "res = (r, s2, w2)" by (cases res)
  note p = map_window_props[OF m[unfolded res]]
  have c: "0 \<le> cur s" "0 < blk s" using inv by (auto simp: stream_inv_def pos_inv_def)
  note b = window_base_bounds[OF c]
  show ?thesis
  proof (cases r)
    case None
    from p(5)[OF None] have s2: "s2 = s1\<lparr>buf := Some (off s1, len s1)\<rparr>" and
      lim: "off s1 + len s1 \<le> LONG_MAX" by simp_all
    have "stream_inv s2"
      using inv s1 b by (simp add: s2 stream_inv_def pos_inv_def window_ok_def)
    then show ?thesis
      using s1 w1 p(1,2,3) b None
      by (auto simp: res fault_post_def s2 coupled_def)
  next
    case (Some e)
    from p(4)[OF Some] have s2: "s2 = s1\<lparr>buf := None\<rparr>" and
      org: "Some e \<in> set (oserr w1) \<or> e = EINVAL \<and> (len s1 \<le> 0 \<or> off s1 < 0)
                      \<or> e = EOVERFLOW \<and> LONG_MAX < off s1 + len s1" by simp_all
    have "stream_inv s2"
      using inv s1 b by (simp add: s2 stream_inv_def pos_inv_def window_ok_def)
    moreover have "Some e \<in> set (oserr w) \<or> e = EOVERFLOW"
      using org s1 b w1(1) by auto
    moreover have "os_ok w \<and> cur s - cur s mod blk s + blk s \<le> LONG_MAX \<longrightarrow> False"
    proof
      assume a: "os_ok w \<and> cur s - cur s mod blk s + blk s \<le> LONG_MAX"
      then have "os_ok w1" using w1(1) by (auto simp: os_ok_def)
      moreover have "off s1 + len s1 \<le> LONG_MAX" using a s1 by simp
      ultimately have "r = None" using p(6) s1 b by simp
      then show False using Some by simp
    qed
    ultimately show ?thesis
      using s1 w1 p(1,2,3) Some
      by (auto simp: res fault_post_def s2 coupled_def)
  qed
qed


lemma inv_facts:
  assumes "stream_inv s"
  shows "0 < blk s" "blk s \<le> LONG_MAX" "0 \<le> cur s" "cur s \<le> end_s s" "end_s s \<le> siz s"
    "siz s \<le> LONG_MAX" "window_ok s"
  using assms by (auto simp: stream_inv_def pos_inv_def)

lemma no_trap: "stream_inv s \<Longrightarrow> \<not> div_traps (cur s) (blk s)"
  by (auto simp: div_traps_def dest: inv_facts(1))

lemma fault_post_fresh:
  assumes "stream_inv s" "\<not> window_stale s"
  shows "fault_post w s (None, s, w)"
  using assms by (auto simp: fault_post_def window_stale_def)

text \<open>The window's end wraps around: no mapping can follow.\<close>

lemma fault_post_wrapped:
  assumes inv: "stream_inv s" and over: "LONG_MAX < cur s - cur s mod blk s + blk s"
    and m: "map_window w (new_window s) = res"
  shows "fault_post w s res"
proof -
  obtain r s2 w2 where res: "res = (r, s2, w2)" by (cases res)
  note p = map_window_props[OF m[unfolded res]]
  note f = inv_facts[OF inv]
  note b = window_base_bounds[OF f(3) f(1)]
  have o: "off (new_window s) = cur s - cur s mod blk s" by (rule new_window_off[OF inv])
  have r: "r \<noteq> None" using p(5) over o by (auto simp: new_window_fields)
  then obtain e where e: "r = Some e" by auto
  from p(4)[OF e] have s2: "s2 = (new_window s)\<lparr>buf := None\<rparr>"
    and org: "Some e \<in> set (oserr w) \<or> e = EOVERFLOW"
    using f(1) b o by (auto simp: new_window_fields)
  have "stream_inv s2"
    using inv by (simp add: s2 stream_inv_def pos_inv_def window_ok_def new_window_fields)
  then show ?thesis
    using org over p(1,2,3) e
    by (auto simp: res fault_post_def s2 coupled_def new_window_fields)
qed

lemma write_fault_post:
  assumes inv: "stream_inv s"
  shows "\<exists>res. write_fault w s = Some res \<and> fault_post w s res"
proof (cases "window_stale s")
  case False
  then have "write_fault w s = Some (None, s, w)" by (simp add: write_fault_def)
  then show ?thesis using fault_post_fresh[OF inv False] by simp
next
  case True
  note f = inv_facts[OF inv]
  note b = window_base_bounds[OF f(3) f(1)]
  let ?s1 = "new_window s"
  have o: "off ?s1 = cur s - cur s mod blk s" by (rule new_window_off[OF inv])
  show ?thesis
  proof (cases "LONG_MAX < cur s - cur s mod blk s + blk s")
    case over: True
    have "cur s - cur s mod blk s + blk s \<le> 2 * LONG_MAX" using f b by linarith
    then have "brk ?s1 < 0"
      using wrap_long_over[OF over] by (simp add: new_window_brk o ladd_def)
    then have "\<not> brk ?s1 > siz ?s1" using f by (simp add: new_window_fields)
    then have "write_fault w s = Some (map_window w ?s1)"
      using True no_trap[OF inv] by (simp add: write_fault_def Let_def)
    then show ?thesis using fault_post_wrapped[OF inv over refl] by simp
  next
    case False
    have "LONG_MIN \<le> cur s - cur s mod blk s + blk s"
      unfolding LONG_MIN_def using b f by linarith
    then have k: "brk ?s1 = off ?s1 + blk s"
      using False by (simp add: new_window_brk o ladd_def wrap_long_id)
    show ?thesis
    proof (cases "brk ?s1 > siz ?s1")
      case nogrow: False
      then have wf: "write_fault w s = Some (map_window w ?s1)"
        using True no_trap[OF inv] by (simp add: write_fault_def Let_def)
      have "fault_post w s (map_window w ?s1)"
        using f b k o nogrow
        by (intro fault_post_mapped[OF inv _ _ _ _ _ _ _ _ _ _ _ _ _ _ _ refl])
          (simp_all add: new_window_fields coupled_def)
      then show ?thesis using wf by simp
    next
      case grow: True
      obtain r0 w0 where t: "os_ftruncate w (des ?s1) (brk ?s1) = (r0, w0)"
        by (cases "os_ftruncate w (des ?s1) (brk ?s1)")
      note p = os_ftruncate_props[OF t]
      show ?thesis
      proof (cases r0)
        case (Some e)
        then have wf: "write_fault w s = Some (Some e, ?s1, w0)"
          using True no_trap[OF inv] grow t by (simp add: write_fault_def Let_def)
        have "stream_inv ?s1"
          using inv by (simp add: stream_inv_def pos_inv_def window_ok_def new_window_fields)
        moreover have "Some e \<in> set (oserr w)"
          using p(2)[OF Some] grow f by (auto simp: new_window_fields)
        moreover have "\<not> os_ok w" using p(4) Some grow f b k o by auto
        ultimately have "fault_post w s (Some e, ?s1, w0)"
          using p(1) p(2)[OF Some]
          by (auto simp: fault_post_def new_window_fields coupled_def)
        then show ?thesis using wf by simp
      next
        case None
        let ?s2 = "?s1\<lparr>siz := brk ?s1\<rparr>"
        have wf: "write_fault w s = Some (map_window w0 ?s2)"
          using True no_trap[OF inv] grow t None by (simp add: write_fault_def Let_def)
        have cpl: "coupled s w \<longrightarrow> siz ?s2 \<le> fsize w0 \<and> (\<forall>p. p < cur s \<longrightarrow> fdata w0 p = fdata w p)"
          using p(3)[OF None] f b k o by (auto simp: coupled_def)
        have "fault_post w s (map_window w0 ?s2)"
          using f b k o grow False p(1) cpl
          by (intro fault_post_mapped[OF inv _ _ _ _ _ _ _ _ _ _ _ _ _ _ _ refl])
            (simp_all add: new_window_fields)
        then show ?thesis using wf by simp
      qed
    qed
  qed
qed


lemma map_window_frame:
  assumes "map_window w s = (r, s1, w1)"
  shows "siz s1 = siz s" "fdata w1 = fdata w" "fsize w1 = fsize w"
proof -
  note p = map_window_props[OF assms]
  show "fdata w1 = fdata w" "fsize w1 = fsize w" by (rule p)+
  show "siz s1 = siz s" using p(4)[of "the r"] p(5) by (cases r) auto
qed

lemma read_fault_post:
  assumes inv: "stream_inv s" and lt: "cur s < siz s"
  shows "\<exists>r s1 w1. read_fault w s = Some (r, s1, w1) \<and> fault_post w s (r, s1, w1)
           \<and> siz s1 = siz s \<and> fdata w1 = fdata w \<and> fsize w1 = fsize w"
proof (cases "window_stale s")
  case False
  then have "read_fault w s = Some (None, s, w)" by (simp add: read_fault_def)
  then show ?thesis using fault_post_fresh[OF inv False] by simp
next
  case True
  note f = inv_facts[OF inv]
  note b = window_base_bounds[OF f(3) f(1)]
  let ?s1 = "new_window s"
  have o: "off ?s1 = cur s - cur s mod blk s" by (rule new_window_off[OF inv])
  have "\<exists>s2. read_fault w s = Some (map_window w s2) \<and> fault_post w s (map_window w s2) \<and> siz s2 = siz s"
  proof (cases "LONG_MAX < cur s - cur s mod blk s + blk s")
    case over: True
    have "cur s - cur s mod blk s + blk s \<le> 2 * LONG_MAX" using f b by linarith
    then have "brk ?s1 < 0"
      using wrap_long_over[OF over] by (simp add: new_window_brk o ladd_def)
    then have "\<not> brk ?s1 > siz ?s1" using f by (simp add: new_window_fields)
    then have "read_fault w s = Some (map_window w ?s1)"
      using True no_trap[OF inv] by (simp add: read_fault_def Let_def)
    then show ?thesis using fault_post_wrapped[OF inv over refl] by (auto simp: new_window_fields)
  next
    case False
    have "LONG_MIN \<le> cur s - cur s mod blk s + blk s"
      unfolding LONG_MIN_def using b f by linarith
    then have k: "brk ?s1 = off ?s1 + blk s"
      using False by (simp add: new_window_brk o ladd_def wrap_long_id)
    show ?thesis
    proof (cases "brk ?s1 > siz ?s1")
      case nocut: False
      then have rf: "read_fault w s = Some (map_window w ?s1)"
        using True no_trap[OF inv] by (simp add: read_fault_def Let_def)
      have "fault_post w s (map_window w ?s1)"
        using f b k o nocut
        by (intro fault_post_mapped[OF inv _ _ _ _ _ _ _ _ _ _ _ _ _ _ _ refl])
          (simp_all add: new_window_fields coupled_def)
      then show ?thesis using rf by (auto simp: new_window_fields)
    next
      case cut: True
      let ?l = "siz s - off ?s1"
      have l: "0 < ?l" "?l \<le> blk s" "?l \<le> LONG_MAX" using f b k o cut lt
        by (simp_all add: new_window_fields)
      have "LONG_MIN \<le> ?l" unfolding LONG_MIN_def using l by linarith
      then have l1: "lsub (siz s) (off ?s1) = ?l" using l by (simp add: lsub_def wrap_long_id)
      have "LONG_MIN \<le> siz s" unfolding LONG_MIN_def using f lt by linarith
      then have l2: "ladd (off ?s1) ?l = siz s" using f by (simp add: ladd_def wrap_long_id)
      let ?s2 = "?s1\<lparr>len := ?l, brk := siz s\<rparr>"
      have rf: "read_fault w s = Some (map_window w ?s2)"
        using True no_trap[OF inv] cut by (simp add: read_fault_def Let_def new_window_fields l1 l2)
      have "fault_post w s (map_window w ?s2)"
        using f b o l lt
        by (intro fault_post_mapped[OF inv _ _ _ _ _ _ _ _ _ _ _ _ _ _ _ refl])
          (simp_all add: new_window_fields coupled_def)
      then show ?thesis using rf by (auto simp: new_window_fields)
    qed
  qed
  then obtain s2 where s2: "read_fault w s = Some (map_window w s2)"
    "fault_post w s (map_window w s2)" "siz s2 = siz s" by blast
  obtain r s1 w1 where m: "map_window w s2 = (r, s1, w1)" by (cases "map_window w s2")
  show ?thesis using s2 map_window_frame[OF m] by (simp add: m)
qed


subsection \<open>Copying\<close>

lemma copy_bytes_eq:
  "copy_bytes c d dp sm sp = (\<lambda>p. if dp \<le> p \<and> p < dp + int c then sm (sp + (p - dp)) else d p)"
proof (induction c arbitrary: d dp sp)
  case 0
  show ?case by (rule ext) auto
next
  case (Suc c)
  show ?case by (rule ext) (simp add: Suc)
qed

lemma map_access_inside:
  assumes "window_ok s" "buf s \<noteq> None" "off s \<le> c" "0 < n" "c + n \<le> brk s"
  shows "map_access (buf s) (c - off s) n = Some c"
  using assms by (auto simp: window_ok_def map_access_def)

subsection \<open>One turn of the writing loop\<close>

lemma write_body_post:
  assumes inv: "stream_inv s" and lt: "cur s < wbrk" and lim: "wbrk \<le> LONG_MAX"
    and n: "0 \<le> n" "n \<le> cur s"
  shows "\<exists>res. write_body w s src wbrk n = Some res \<and> write_turn_post w s src wbrk n res"
proof -
  obtain r s1 w1 where wf: "write_fault w s = Some (r, s1, w1)" and fp: "fault_post w s (r, s1, w1)"
    using write_fault_post[OF inv, of w] by auto
  note f = inv_facts[OF inv]
  from fp have fp1: "stream_inv s1" "cur s1 = cur s" "end_s s1 = end_s s" "blk s1 = blk s"
    "mod_s s1 = mod_s s" "siz s \<le> siz s1" "set (oserr w1) \<subseteq> set (oserr w)"
    "os_ok w \<and> cur s - cur s mod blk s + blk s \<le> LONG_MAX \<longrightarrow> r = None"
    "coupled s w \<longrightarrow> coupled s1 w1 \<and> (\<forall>p. p < cur s \<longrightarrow> fdata w1 p = fdata w p)"
    by (simp_all add: fault_post_def)
  show ?thesis
  proof (cases r)
    case (Some e)
    then have "write_body w s src wbrk n = Some (Some e, n, s1, w1)"
      using wf by (simp add: write_body_def)
    moreover have "Some e \<in> set (oserr w) \<or> e = EOVERFLOW"
      using fp Some by (simp add: fault_post_def)
    ultimately show ?thesis using fp1 f Some lt by (auto simp: write_turn_post_def)
  next
    case None
    then have win: "buf s1 \<noteq> None" "off s1 \<le> cur s" "cur s < brk s1"
      using fp by (simp_all add: fault_post_def)
    note f1 = inv_facts[OF fp1(1)]
    have bl: "brk s1 \<le> LONG_MAX" using win f1 by (auto simp: window_ok_def)
    define t where "t = (if wbrk < brk s1 then wbrk else brk s1)"
    define wrl where "wrl = t - cur s"
    have t: "cur s < t" "t \<le> wbrk" "t \<le> brk s1" "t \<le> LONG_MAX"
      using lt win lim by (simp_all add: t_def)
    have wpos: "0 < wrl" "wrl \<le> LONG_MAX" using t f by (simp_all add: wrl_def)
    have "LONG_MIN \<le> wrl" unfolding LONG_MIN_def using wpos by linarith
    then have e1: "lsub (if wbrk < brk s1 then wbrk else brk s1) (cur s1) = wrl"
      using wpos by (simp add: lsub_def wrap_long_id fp1 wrl_def t_def)
    have "LONG_MIN \<le> cur s - off s1" "cur s - off s1 \<le> LONG_MAX"
      unfolding LONG_MIN_def using win f f1 by (auto simp: window_ok_def)
    then have e2: "lsub (cur s1) (off s1) = cur s - off s1"
      by (simp add: lsub_def wrap_long_id fp1)
    have e3: "map_access (buf s1) (cur s - off s1) wrl = Some (cur s)"
      using f1 win wpos t by (intro map_access_inside) (simp_all add: wrl_def)
    have "LONG_MIN \<le> t" unfolding LONG_MIN_def using t f by linarith
    then have e4: "ladd (cur s1) wrl = t" using t by (simp add: ladd_def wrap_long_id fp1 wrl_def)
    have "LONG_MIN \<le> n + wrl" "n + wrl \<le> LONG_MAX"
      unfolding LONG_MIN_def using n wpos t by (simp_all add: wrl_def)
    then have e5: "ladd n wrl = n + wrl" by (simp add: ladd_def wrap_long_id)
    define s3 where "s3 = (if t > end_s s1 then s1\<lparr>cur := t, end_s := t\<rparr> else s1\<lparr>cur := t\<rparr>)"
    define w2 where "w2 = w1\<lparr>fdata := copy_bytes (nat wrl) (fdata w1) (cur s) src n\<rparr>"
    have wb: "write_body w s src wbrk n = Some (None, n + wrl, s3, w2)"
      using wf None by (simp add: write_body_def Let_def e1 e2 e3 e4 e5 s3_def w2_def)
    have inv3: "stream_inv s3"
      using fp1(1) t f win fp1(2,3)
      by (auto simp: s3_def stream_inv_def pos_inv_def window_ok_def split: option.splits)
    have flds: "blk s3 = blk s" "mod_s s3 = mod_s s" "cur s3 = t"
      "end_s s3 = max (end_s s) t" "buf s3 = buf s1" "off s3 = off s1" "brk s3 = brk s1"
      "siz s3 = siz s1" "oserr w2 = oserr w1" "fsize w2 = fsize w1"
      using fp1 by (auto simp: s3_def w2_def)
    have dat: "coupled s w \<longrightarrow> coupled s3 w2 \<and> (\<forall>p. p < cur s \<longrightarrow> fdata w2 p = fdata w p)
           \<and> (\<forall>p. cur s \<le> p \<and> p < t \<longrightarrow> fdata w2 p = src (n + (p - cur s)))"
      using fp1(9) wpos by (auto simp: copy_bytes_eq coupled_def wrl_def flds w2_def)
    have "stream_inv s3 \<and> blk s3 = blk s \<and> mod_s s3 = mod_s s \<and> siz s \<le> siz s3
     \<and> set (oserr w2) \<subseteq> set (oserr w)
     \<and> cur s \<le> cur s3 \<and> cur s3 \<le> wbrk \<and> n + wrl = n + (cur s3 - cur s)
     \<and> end_s s3 = max (end_s s) (cur s3)
     \<and> (cur s < cur s3 \<and> buf s3 \<noteq> None \<and> off s3 < cur s3 \<and> cur s3 \<le> brk s3)
     \<and> (coupled s w \<longrightarrow> coupled s3 w2 \<and> (\<forall>p. p < cur s \<longrightarrow> fdata w2 p = fdata w p)
           \<and> (\<forall>p. cur s \<le> p \<and> p < cur s3 \<longrightarrow> fdata w2 p = src (n + (p - cur s))))"
      unfolding flds using inv3 dat t win fp1(6,7) by (simp add: wrl_def)
    then show ?thesis by (simp add: wb write_turn_post_def)
  qed
qed

subsection \<open>The writing loop\<close>

lemma write_post_done:
  assumes "stream_inv s" "cur s = wbrk"
  shows "write_post w s src wbrk n (Inr n, s, w)"
  using assms inv_facts[OF assms(1)] by (auto simp: write_post_def)

lemma write_post_fail:
  assumes "stream_inv s1" "blk s1 = blk s" "mod_s s1 = mod_s s" "siz s \<le> siz s1"
    "set (oserr w1) \<subseteq> set (oserr w)" "cur s1 = cur s" "cur s < wbrk" "end_s s1 = max (end_s s) (cur s1)"
    "Some e \<in> set (oserr w) \<or> e = EOVERFLOW"
    "\<not> (os_ok w \<and> cur s - cur s mod blk s + blk s \<le> LONG_MAX)"
    "0 \<le> cur s" "0 < blk s"
    "coupled s w \<longrightarrow> coupled s1 w1 \<and> (\<forall>p. p < cur s \<longrightarrow> fdata w1 p = fdata w p)"
  shows "write_post w s src wbrk n (Inl e, s1, w1)"
proof -
  note b = window_base_bounds[OF assms(11,12)]
  have "\<not> (os_ok w \<and> wbrk + blk s \<le> LONG_MAX)" using assms(10,7) b by linarith
  then show ?thesis using assms by (auto simp: write_post_def)
qed

lemma write_post_step:
  assumes s1: "stream_inv s1" "blk s1 = blk s" "mod_s s1 = mod_s s" "siz s \<le> siz s1"
    "set (oserr w1) \<subseteq> set (oserr w)" "cur s < cur s1" "cur s1 \<le> wbrk"
    "end_s s1 = max (end_s s) (cur s1)" "n1 = n + (cur s1 - cur s)"
    "buf s1 \<noteq> None" "off s1 < cur s1" "cur s1 \<le> brk s1"
    "coupled s w \<longrightarrow> coupled s1 w1 \<and> (\<forall>p. p < cur s \<longrightarrow> fdata w1 p = fdata w p)
           \<and> (\<forall>p. cur s \<le> p \<and> p < cur s1 \<longrightarrow> fdata w1 p = src (n + (p - cur s)))"
    and rest: "write_post w1 s1 src wbrk n1 (r, s2, w2)"
  shows "write_post w s src wbrk n (r, s2, w2)"
proof -
  from rest have p: "stream_inv s2" "blk s2 = blk s1" "mod_s s2 = mod_s s1" "siz s1 \<le> siz s2"
    "set (oserr w2) \<subseteq> set (oserr w1)" "cur s1 \<le> cur s2" "cur s2 \<le> wbrk"
    "end_s s2 = max (end_s s1) (cur s2)"
    "\<not> cur s1 < wbrk \<longrightarrow> r = Inr n1 \<and> s2 = s1 \<and> w2 = w1"
    "os_ok w1 \<and> wbrk + blk s1 \<le> LONG_MAX \<longrightarrow> r = Inr (n1 + (wbrk - cur s1))"
    "coupled s1 w1 \<longrightarrow>
              coupled s2 w2 \<and> (\<forall>p. p < cur s1 \<longrightarrow> fdata w2 p = fdata w1 p)
              \<and> (\<forall>p. cur s1 \<le> p \<and> p < cur s2 \<longrightarrow> fdata w2 p = src (n1 + (p - cur s1)))"
    by (simp_all add: write_post_def)
  have r: "(case r of
              Inl e \<Rightarrow> Some e \<in> set (oserr w) \<or> e = EOVERFLOW
            | Inr k \<Rightarrow> k = n + (wbrk - cur s) \<and> cur s2 = wbrk
                       \<and> (cur s < wbrk \<longrightarrow> buf s2 \<noteq> None \<and> off s2 < cur s2 \<and> cur s2 \<le> brk s2))"
  proof (cases r)
    case (Inl e)
    then show ?thesis using rest s1(5) by (auto simp: write_post_def)
  next
    case (Inr k)
    then have "k = n1 + (wbrk - cur s1)" "cur s2 = wbrk"
      "cur s1 < wbrk \<longrightarrow> buf s2 \<noteq> None \<and> off s2 < cur s2 \<and> cur s2 \<le> brk s2"
      using rest by (auto simp: write_post_def)
    then show ?thesis using Inr s1 p(9) by (cases "cur s1 < wbrk") auto
  qed
  have ok: "os_ok w \<and> wbrk + blk s \<le> LONG_MAX \<longrightarrow> r = Inr (n + (wbrk - cur s))"
    using p(10) s1(2,5,9) by (auto simp: os_ok_def)
  have dat: "coupled s w \<longrightarrow>
              coupled s2 w2 \<and> (\<forall>p. p < cur s \<longrightarrow> fdata w2 p = fdata w p)
              \<and> (\<forall>p. cur s \<le> p \<and> p < cur s2 \<longrightarrow> fdata w2 p = src (n + (p - cur s)))"
  proof
    assume c: "coupled s w"
    then have c1: "coupled s1 w1" "\<And>p. p < cur s \<Longrightarrow> fdata w1 p = fdata w p"
      "\<And>p. cur s \<le> p \<Longrightarrow> p < cur s1 \<Longrightarrow> fdata w1 p = src (n + (p - cur s))"
      using s1(13) by auto
    then have c2: "coupled s2 w2" "\<And>p. p < cur s1 \<Longrightarrow> fdata w2 p = fdata w1 p"
      "\<And>p. cur s1 \<le> p \<Longrightarrow> p < cur s2 \<Longrightarrow> fdata w2 p = src (n1 + (p - cur s1))"
      using p(11) by auto
    have "fdata w2 q = fdata w q" if "q < cur s" for q
      using that c1(2)[of q] c2(2)[of q] s1(6) by simp
    moreover have "fdata w2 q = src (n + (q - cur s))" if "cur s \<le> q" "q < cur s2" for q
    proof (cases "q < cur s1")
      case True
      then show ?thesis using that c1(3)[of q] c2(2)[of q] by simp
    next
      case False
      then show ?thesis using that c2(3)[of q] s1(9) by (simp add: algebra_simps)
    qed
    ultimately show "coupled s2 w2 \<and> (\<forall>p. p < cur s \<longrightarrow> fdata w2 p = fdata w p)
              \<and> (\<forall>p. cur s \<le> p \<and> p < cur s2 \<longrightarrow> fdata w2 p = src (n + (p - cur s)))"
      using c2(1) by blast
  qed
  have e: "end_s s2 = max (end_s s) (cur s2)" using p(8,6) s1(8) by simp
  show ?thesis
    unfolding write_post_def prod.case
    using p(1,2,3,4,5,6,7) s1(2,3,4,5,6) e r ok dat by (intro conjI) auto
qed

lemma write_loop_post:
  assumes "stream_inv s" "cur s \<le> wbrk" "wbrk \<le> LONG_MAX" "0 \<le> n" "n \<le> cur s"
  shows "\<exists>res. write_loop w s src wbrk n = Some res \<and> write_post w s src wbrk n res"
  using assms
proof (induction "nat (wbrk - cur s)" arbitrary: w s n rule: less_induct)
  case less
  note inv = \<open>stream_inv s\<close>
  show ?case
  proof (cases "cur s < wbrk")
    case False
    then have "write_loop w s src wbrk n = Some (Inr n, s, w)"
      by (subst write_loop.simps) simp
    moreover have "cur s = wbrk" using False less.prems by simp
    ultimately show ?thesis using write_post_done[OF inv] by simp
  next
    case True
    obtain res0 where b0: "write_body w s src wbrk n = Some res0"
      and q0: "write_turn_post w s src wbrk n res0"
      using write_body_post[OF inv True less.prems(3,4,5), where w = w and src = src] by blast
    obtain r n1 s1 w1 where res0: "res0 = (r, n1, s1, w1)" by (cases res0)
    note b = b0[unfolded res0]
    from q0 have q: "stream_inv s1" "blk s1 = blk s" "mod_s s1 = mod_s s" "siz s \<le> siz s1"
        "set (oserr w1) \<subseteq> set (oserr w)" "cur s \<le> cur s1" "cur s1 \<le> wbrk"
        "n1 = n + (cur s1 - cur s)" "end_s s1 = max (end_s s) (cur s1)"
        "(case r of
           Some e \<Rightarrow> (Some e \<in> set (oserr w) \<or> e = EOVERFLOW) \<and> cur s1 = cur s
         | None \<Rightarrow> cur s < cur s1 \<and> buf s1 \<noteq> None \<and> off s1 < cur s1 \<and> cur s1 \<le> brk s1)"
        "os_ok w \<and> cur s - cur s mod blk s + blk s \<le> LONG_MAX \<longrightarrow> r = None"
        "coupled s w \<longrightarrow> coupled s1 w1 \<and> (\<forall>p. p < cur s \<longrightarrow> fdata w1 p = fdata w p)
           \<and> (\<forall>p. cur s \<le> p \<and> p < cur s1 \<longrightarrow> fdata w1 p = src (n + (p - cur s)))"
      by (simp_all add: res0 write_turn_post_def)
    note f = inv_facts[OF inv]
    show ?thesis
    proof (cases r)
      case (Some e)
      then have "write_loop w s src wbrk n = Some (Inl e, s1, w1)"
        using True b by (subst write_loop.simps) simp
      moreover have "write_post w s src wbrk n (Inl e, s1, w1)"
        using q Some True f by (intro write_post_fail) auto
      ultimately show ?thesis by simp
    next
      case None
      then have w: "write_loop w s src wbrk n = write_loop w1 s1 src wbrk n1"
        using True b by (subst write_loop.simps) simp
      have adv: "cur s < cur s1" "buf s1 \<noteq> None" "off s1 < cur s1" "cur s1 \<le> brk s1"
        using q(10) None by simp_all
      have "nat (wbrk - cur s1) < nat (wbrk - cur s)" using adv True by simp
      moreover have "0 \<le> n1" "n1 \<le> cur s1" using q(8) adv less.prems by simp_all
      ultimately obtain res where l: "write_loop w1 s1 src wbrk n1 = Some res"
        and p: "write_post w1 s1 src wbrk n1 res"
        using less.hyps[of s1 n1 w1] q(1,7) less.prems(3) by blast
      obtain r2 s2 w2 where res: "res = (r2, s2, w2)" by (cases res)
      have "write_post w s src wbrk n (r2, s2, w2)"
        by (rule write_post_step[OF q(1,2,3,4,5) adv(1) q(7) q(9) q(8) adv(2,3,4) q(12) p[unfolded res]])
      then show ?thesis using w l res by simp
    qed
  qed
qed

subsection \<open>One turn of the reading loop\<close>

lemma read_body_post:
  assumes inv: "stream_inv s" and lt: "cur s < rbrk" and lim: "rbrk \<le> end_s s"
    and n: "0 \<le> n" "n \<le> cur s"
  shows "\<exists>res. read_body w s dst rbrk n = Some res \<and> read_turn_post w s dst rbrk n res"
proof -
  note f = inv_facts[OF inv]
  have "cur s < siz s" using lt lim f by linarith
  from read_fault_post[OF inv this, of w]
  obtain r s1 w1 where rf: "read_fault w s = Some (r, s1, w1)" and fp: "fault_post w s (r, s1, w1)"
    and fr: "siz s1 = siz s" "fdata w1 = fdata w" "fsize w1 = fsize w"
    by blast
  from fp have fp1: "stream_inv s1" "cur s1 = cur s" "end_s s1 = end_s s" "blk s1 = blk s"
    "mod_s s1 = mod_s s" "set (oserr w1) \<subseteq> set (oserr w)"
    "os_ok w \<and> cur s - cur s mod blk s + blk s \<le> LONG_MAX \<longrightarrow> r = None"
    by (simp_all add: fault_post_def)
  show ?thesis
  proof (cases r)
    case (Some e)
    then have "read_body w s dst rbrk n = Some (Some e, n, s1, w1, dst)"
      using rf by (simp add: read_body_def)
    moreover have "Some e \<in> set (oserr w) \<or> e = EOVERFLOW"
      using fp Some by (simp add: fault_post_def)
    ultimately show ?thesis using fp1 fr f Some lt by (auto simp: read_turn_post_def)
  next
    case None
    then have win: "buf s1 \<noteq> None" "off s1 \<le> cur s" "cur s < brk s1"
      using fp by (simp_all add: fault_post_def)
    note f1 = inv_facts[OF fp1(1)]
    define t where "t = (if rbrk < brk s1 then rbrk else brk s1)"
    define rdl where "rdl = t - cur s"
    have t: "cur s < t" "t \<le> rbrk" "t \<le> brk s1" "t \<le> LONG_MAX"
      using lt win lim f by (simp_all add: t_def)
    have wpos: "0 < rdl" "rdl \<le> LONG_MAX" using t f by (simp_all add: rdl_def)
    have "LONG_MIN \<le> rdl" unfolding LONG_MIN_def using wpos by linarith
    then have e1: "lsub (if rbrk < brk s1 then rbrk else brk s1) (cur s1) = rdl"
      using wpos by (simp add: lsub_def wrap_long_id fp1 rdl_def t_def)
    have "LONG_MIN \<le> cur s - off s1" "cur s - off s1 \<le> LONG_MAX"
      unfolding LONG_MIN_def using win f f1 by (auto simp: window_ok_def)
    then have e2: "lsub (cur s1) (off s1) = cur s - off s1"
      by (simp add: lsub_def wrap_long_id fp1)
    have e3: "map_access (buf s1) (cur s - off s1) rdl = Some (cur s)"
      using f1 win wpos t by (intro map_access_inside) (simp_all add: rdl_def)
    have "LONG_MIN \<le> t" unfolding LONG_MIN_def using t f by linarith
    then have e4: "ladd (cur s1) rdl = t" using t by (simp add: ladd_def wrap_long_id fp1 rdl_def)
    have "LONG_MIN \<le> n + rdl" "n + rdl \<le> LONG_MAX"
      unfolding LONG_MIN_def using n wpos t by (simp_all add: rdl_def)
    then have e5: "ladd n rdl = n + rdl" by (simp add: ladd_def wrap_long_id)
    define s3 where "s3 = s1\<lparr>cur := t\<rparr>"
    define d2 where "d2 = copy_bytes (nat rdl) dst n (fdata w1) (cur s)"
    have rb: "read_body w s dst rbrk n = Some (None, n + rdl, s3, w1, d2)"
      using rf None by (simp add: read_body_def Let_def e1 e2 e3 e4 e5 s3_def d2_def)
    have inv3: "stream_inv s3"
      using fp1(1) t f win fp1(2,3) lim
      by (auto simp: s3_def stream_inv_def pos_inv_def window_ok_def split: option.splits)
    have flds: "blk s3 = blk s" "mod_s s3 = mod_s s" "cur s3 = t"
      "end_s s3 = end_s s" "buf s3 = buf s1" "off s3 = off s1" "brk s3 = brk s1"
      "siz s3 = siz s"
      using fp1 fr by (auto simp: s3_def)
    have dat: "(\<forall>i. i < n \<or> n + rdl \<le> i \<longrightarrow> d2 i = dst i)
        \<and> (\<forall>i. n \<le> i \<and> i < n + rdl \<longrightarrow> d2 i = fdata w (cur s + (i - n)))"
      using wpos by (auto simp: copy_bytes_eq d2_def fr)
    have "stream_inv s3 \<and> blk s3 = blk s \<and> mod_s s3 = mod_s s \<and> siz s3 = siz s
        \<and> end_s s3 = end_s s \<and> fdata w1 = fdata w \<and> fsize w1 = fsize w
        \<and> set (oserr w1) \<subseteq> set (oserr w)
        \<and> cur s \<le> cur s3 \<and> cur s3 \<le> rbrk \<and> n + rdl = n + (cur s3 - cur s)
        \<and> (cur s < cur s3 \<and> buf s3 \<noteq> None \<and> off s3 < cur s3 \<and> cur s3 \<le> brk s3)"
      unfolding flds using inv3 t win fp1(6) fr by (simp add: rdl_def)
    then show ?thesis using dat by (simp add: rb read_turn_post_def)
  qed
qed


subsection \<open>The reading loop\<close>

lemma read_post_done:
  assumes "stream_inv s" "cur s = rbrk"
  shows "read_post w s dst rbrk n (Inr n, s, w, dst)"
  using assms inv_facts[OF assms(1)] by (auto simp: read_post_def)

lemma read_post_fail:
  assumes "stream_inv s1" "blk s1 = blk s" "mod_s s1 = mod_s s" "siz s1 = siz s"
    "end_s s1 = end_s s" "fdata w1 = fdata w" "fsize w1 = fsize w"
    "set (oserr w1) \<subseteq> set (oserr w)" "cur s1 = cur s" "cur s < rbrk"
    "Some e \<in> set (oserr w) \<or> e = EOVERFLOW"
    "\<not> (os_ok w \<and> cur s - cur s mod blk s + blk s \<le> LONG_MAX)"
    "0 \<le> cur s" "0 < blk s"
    "\<forall>i. dst1 i = dst i"
  shows "read_post w s dst rbrk n (Inl e, s1, w1, dst1)"
proof -
  note b = window_base_bounds[OF assms(13,14)]
  have "\<not> (os_ok w \<and> rbrk + blk s \<le> LONG_MAX)" using assms(12,10) b by linarith
  then show ?thesis using assms by (auto simp: read_post_def)
qed

lemma read_post_step:
  assumes s1: "stream_inv s1" "blk s1 = blk s" "mod_s s1 = mod_s s" "siz s1 = siz s"
    "end_s s1 = end_s s" "fdata w1 = fdata w" "fsize w1 = fsize w"
    "set (oserr w1) \<subseteq> set (oserr w)" "cur s < cur s1" "cur s1 \<le> rbrk"
    "n1 = n + (cur s1 - cur s)"
    "buf s1 \<noteq> None" "off s1 < cur s1" "cur s1 \<le> brk s1"
    "\<forall>i. i < n \<or> n1 \<le> i \<longrightarrow> dst1 i = dst i"
    "\<forall>i. n \<le> i \<and> i < n1 \<longrightarrow> dst1 i = fdata w (cur s + (i - n))"
    and rest: "read_post w1 s1 dst1 rbrk n1 (r, s2, w2, dst2)"
  shows "read_post w s dst rbrk n (r, s2, w2, dst2)"
proof -
  from rest have p: "stream_inv s2" "blk s2 = blk s1" "mod_s s2 = mod_s s1" "siz s2 = siz s1"
    "end_s s2 = end_s s1" "fdata w2 = fdata w1" "fsize w2 = fsize w1"
    "set (oserr w2) \<subseteq> set (oserr w1)" "cur s1 \<le> cur s2" "cur s2 \<le> rbrk"
    "\<not> cur s1 < rbrk \<longrightarrow> r = Inr n1 \<and> s2 = s1 \<and> w2 = w1 \<and> dst2 = dst1"
    "os_ok w1 \<and> rbrk + blk s1 \<le> LONG_MAX \<longrightarrow> r = Inr (n1 + (rbrk - cur s1))"
    "\<forall>i. i < n1 \<or> n1 + (cur s2 - cur s1) \<le> i \<longrightarrow> dst2 i = dst1 i"
    "\<forall>i. n1 \<le> i \<and> i < n1 + (cur s2 - cur s1) \<longrightarrow> dst2 i = fdata w1 (cur s1 + (i - n1))"
    by (simp_all add: read_post_def)
  have r: "(case r of
              Inl e \<Rightarrow> Some e \<in> set (oserr w) \<or> e = EOVERFLOW
            | Inr k \<Rightarrow> k = n + (rbrk - cur s) \<and> cur s2 = rbrk
                       \<and> (cur s < rbrk \<longrightarrow> buf s2 \<noteq> None \<and> off s2 < cur s2 \<and> cur s2 \<le> brk s2))"
  proof (cases r)
    case (Inl e)
    then show ?thesis using rest s1(8) by (auto simp: read_post_def)
  next
    case (Inr k)
    then have "k = n1 + (rbrk - cur s1)" "cur s2 = rbrk"
      "cur s1 < rbrk \<longrightarrow> buf s2 \<noteq> None \<and> off s2 < cur s2 \<and> cur s2 \<le> brk s2"
      using rest by (auto simp: read_post_def)
    then show ?thesis using Inr s1 p(11) by (cases "cur s1 < rbrk") auto
  qed
  have ok: "os_ok w \<and> rbrk + blk s \<le> LONG_MAX \<longrightarrow> r = Inr (n + (rbrk - cur s))"
    using p(12) s1(2,8,11) by (auto simp: os_ok_def)
  have d1: "\<forall>i. i < n \<or> n + (cur s2 - cur s) \<le> i \<longrightarrow> dst2 i = dst i"
  proof (intro allI impI)
    fix i assume a: "i < n \<or> n + (cur s2 - cur s) \<le> i"
    then have "i < n1 \<or> n1 + (cur s2 - cur s1) \<le> i" using s1(9,11) by auto
    then have "dst2 i = dst1 i" using p(13) by blast
    moreover have "i < n \<or> n1 \<le> i" using a s1(11) p(9) by auto
    ultimately show "dst2 i = dst i" using s1(15) by simp
  qed
  have d2: "\<forall>i. n \<le> i \<and> i < n + (cur s2 - cur s) \<longrightarrow> dst2 i = fdata w (cur s + (i - n))"
  proof (intro allI impI)
    fix i assume a: "n \<le> i \<and> i < n + (cur s2 - cur s)"
    show "dst2 i = fdata w (cur s + (i - n))"
    proof (cases "i < n1")
      case True
      then have "dst2 i = dst1 i" using p(13) by blast
      then show ?thesis using s1(16) a True by simp
    next
      case False
      then have "n1 \<le> i \<and> i < n1 + (cur s2 - cur s1)" using a s1(11) by simp
      then have "dst2 i = fdata w1 (cur s1 + (i - n1))" using p(14) by blast
      moreover have "cur s1 + (i - n1) = cur s + (i - n)" using s1(11) by simp
      ultimately show ?thesis using s1(6) by simp
    qed
  qed
  show ?thesis
    unfolding read_post_def prod.case
    using p(1,2,3,4,5,6,7,8,9,10) s1(2,3,4,5,6,7,8,9) r ok d1 d2 by (intro conjI) auto
qed

lemma read_loop_post:
  assumes "stream_inv s" "cur s \<le> rbrk" "rbrk \<le> end_s s" "0 \<le> n" "n \<le> cur s"
  shows "\<exists>res. read_loop w s dst rbrk n = Some res \<and> read_post w s dst rbrk n res"
  using assms
proof (induction "nat (rbrk - cur s)" arbitrary: w s n dst rule: less_induct)
  case less
  note inv = \<open>stream_inv s\<close>
  show ?case
  proof (cases "cur s < rbrk")
    case False
    then have "read_loop w s dst rbrk n = Some (Inr n, s, w, dst)"
      by (subst read_loop.simps) simp
    moreover have "cur s = rbrk" using False less.prems by simp
    ultimately show ?thesis using read_post_done[OF inv] by simp
  next
    case True
    obtain res0 where b0: "read_body w s dst rbrk n = Some res0"
      and q0: "read_turn_post w s dst rbrk n res0"
      using read_body_post[OF inv True less.prems(3,4,5), where w = w and dst = dst] by blast
    obtain r n1 s1 w1 dst1 where res0: "res0 = (r, n1, s1, w1, dst1)" by (cases res0)
    note b = b0[unfolded res0]
    from q0 have q: "stream_inv s1" "blk s1 = blk s" "mod_s s1 = mod_s s" "siz s1 = siz s"
        "end_s s1 = end_s s" "fdata w1 = fdata w" "fsize w1 = fsize w"
        "set (oserr w1) \<subseteq> set (oserr w)" "cur s \<le> cur s1" "cur s1 \<le> rbrk"
        "n1 = n + (cur s1 - cur s)"
        "(case r of
           Some e \<Rightarrow> (Some e \<in> set (oserr w) \<or> e = EOVERFLOW) \<and> cur s1 = cur s
         | None \<Rightarrow> cur s < cur s1 \<and> buf s1 \<noteq> None \<and> off s1 < cur s1 \<and> cur s1 \<le> brk s1)"
        "os_ok w \<and> cur s - cur s mod blk s + blk s \<le> LONG_MAX \<longrightarrow> r = None"
        "\<forall>i. i < n \<or> n1 \<le> i \<longrightarrow> dst1 i = dst i"
        "\<forall>i. n \<le> i \<and> i < n1 \<longrightarrow> dst1 i = fdata w (cur s + (i - n))"
      by (simp_all add: res0 read_turn_post_def)
    note f = inv_facts[OF inv]
    show ?thesis
    proof (cases r)
      case (Some e)
      then have "read_loop w s dst rbrk n = Some (Inl e, s1, w1, dst1)"
        using True b by (subst read_loop.simps) simp
      moreover have "cur s1 = cur s" "Some e \<in> set (oserr w) \<or> e = EOVERFLOW"
        using q(12) Some by simp_all
      moreover have "\<forall>i. dst1 i = dst i" using q(14) q(11) \<open>cur s1 = cur s\<close> by auto
      moreover have "\<not> (os_ok w \<and> cur s - cur s mod blk s + blk s \<le> LONG_MAX)"
        using q(13) Some by auto
      ultimately have "read_post w s dst rbrk n (Inl e, s1, w1, dst1)"
        using q(1-8) True f(3,1) by (intro read_post_fail) simp_all
      then show ?thesis using \<open>read_loop w s dst rbrk n = Some (Inl e, s1, w1, dst1)\<close> by simp
    next
      case None
      then have w: "read_loop w s dst rbrk n = read_loop w1 s1 dst1 rbrk n1"
        using True b by (subst read_loop.simps) simp
      have adv: "cur s < cur s1" "buf s1 \<noteq> None" "off s1 < cur s1" "cur s1 \<le> brk s1"
        using q(12) None by simp_all
      have "nat (rbrk - cur s1) < nat (rbrk - cur s)" using adv True by simp
      moreover have "0 \<le> n1" "n1 \<le> cur s1" using q(11) adv less.prems by simp_all
      moreover have "rbrk \<le> end_s s1" using q(5) less.prems(3) by simp
      ultimately obtain res where l: "read_loop w1 s1 dst1 rbrk n1 = Some res"
        and p: "read_post w1 s1 dst1 rbrk n1 res"
        using less.hyps[of s1 n1 w1 dst1] q(1,10) by blast
      obtain r2 s2 w2 dst2 where res: "res = (r2, s2, w2, dst2)" by (cases res)
      have "read_post w s dst rbrk n (r2, s2, w2, dst2)"
        by (rule read_post_step[OF q(1-8) adv(1) q(10) q(11) adv(2,3,4) q(14,15) p[unfolded res]])
      then show ?thesis using w l res by simp
    qed
  qed
qed

subsection \<open>The range of a long\<close>

lemma wrap_long_range: "LONG_MIN \<le> wrap_long x" "wrap_long x \<le> LONG_MAX"
proof -
  have "0 \<le> (x + 9223372036854775808) mod 18446744073709551616"
    "(x + 9223372036854775808) mod 18446744073709551616 < 18446744073709551616"
    by simp_all
  then show "LONG_MIN \<le> wrap_long x" "wrap_long x \<le> LONG_MAX"
    unfolding wrap_long_def LONG_MIN_def LONG_MAX_def by linarith+
qed

lemma lsub_max: "0 \<le> n \<Longrightarrow> n \<le> LONG_MAX \<Longrightarrow> lsub LONG_MAX n = LONG_MAX - n"
proof -
  assume "0 \<le> n" "n \<le> LONG_MAX"
  then have "LONG_MIN \<le> LONG_MAX - n" "LONG_MAX - n \<le> LONG_MAX"
    unfolding LONG_MIN_def by linarith+
  then show ?thesis by (simp add: lsub_def wrap_long_id)
qed

subsection \<open>The block size\<close>

lemma block_size_eq:
  assumes "1 \<le> page" "page \<le> LONG_MAX"
  shows "block_size page pref =
     (if pref < LONG_MAX \<and> page < pref \<and> pref mod page = 0 then pref else page)"
proof (cases "pref < LONG_MAX \<and> page < pref")
  case False
  then show ?thesis by (auto simp: block_size_def Let_def)
next
  case True
  then have p: "0 \<le> pref" "pref < LONG_MAX" "page < pref" "0 < page" using assms by simp_all
  have "pref div page \<le> pref div 1" using p by (intro zdiv_mono2) simp_all
  then have q: "0 \<le> pref div page" "pref div page \<le> pref" 
    using p by (simp_all add: pos_imp_zdiv_nonneg_iff)
  have m: "0 \<le> pref mod page" "pref mod page < page" using p by simp_all
  have "LONG_MIN \<le> pref div page" "pref div page \<le> LONG_MAX"
    "LONG_MIN \<le> pref mod page" "pref mod page \<le> LONG_MAX"
    unfolding LONG_MIN_def using q m p assms by linarith+
  then have e: "ldiv_quot pref page = pref div page" "ldiv_rem pref page = pref mod page"
    using p by (simp_all add: ldiv_quot_def ldiv_rem_def sdiv_nonneg smod_nonneg wrap_long_id)
  have "1 < pref div page" if "pref mod page = 0"
  proof (rule ccontr)
    assume "\<not> 1 < pref div page"
    then have "pref div page * page \<le> 1 * page" using p by (intro mult_right_mono) simp_all
    moreover from div_mult_mod_eq[of pref page] that have "pref div page * page = pref" by simp
    ultimately show False using p by simp
  qed
  then show ?thesis using True by (simp add: block_size_def Let_def e)
qed

lemma block_size_bounds:
  assumes "1 \<le> page" "page \<le> LONG_MAX"
  shows "0 < block_size page pref" "block_size page pref \<le> LONG_MAX"
  using assms by (auto simp: block_size_eq[OF assms])

lemma wrap_long_size: "int n \<le> LONG_MAX \<Longrightarrow> wrap_long (int n) = int n"
  by (rule wrap_long_id) (simp_all add: LONG_MIN_def)

subsection \<open>The calls\<close>

text \<open>\<open>stream_write\<close> and \<open>stream_read\<close> on a valid handle, past their checks.\<close>

lemma stream_write_post:
  assumes inv: "stream_inv s" and wr: "mod_s s AND PROT_WRITE = PROT_WRITE"
    and n: "0 \<le> n" "cur s + n \<le> LONG_MAX"
  shows "\<exists>r s1 w1. stream_write w (Some s) (Some src) n = Some (r, Some s1, w1)
           \<and> write_post w s src (cur s + n) 0 (r, s1, w1)"
proof -
  note f = inv_facts[OF inv]
  have nl: "n \<le> LONG_MAX" using f n by linarith
  have c: "\<not> cur s > lsub LONG_MAX n" using n nl by (simp add: lsub_max)
  have "LONG_MIN \<le> cur s + n" unfolding LONG_MIN_def using f n by linarith
  then have b: "ladd (cur s) n = cur s + n" using n by (simp add: ladd_def wrap_long_id)
  obtain res where l: "write_loop w s src (cur s + n) 0 = Some res"
    and p: "write_post w s src (cur s + n) 0 res"
    using write_loop_post[OF inv _ n(2) _ f(3), where w = w and src = src] n by auto
  obtain r s1 w1 where res: "res = (r, s1, w1)" by (cases res)
  have "stream_write w (Some s) (Some src) n = Some (r, Some s1, w1)"
    using n wr c l by (simp add: stream_write_def b res)
  then show ?thesis using p res by simp
qed

lemma stream_read_post:
  assumes inv: "stream_inv s" and rd: "mod_s s AND PROT_READ = PROT_READ"
    and n: "0 \<le> n" "n \<le> LONG_MAX"
  shows "\<exists>r s1 w1 d1. stream_read w (Some s) (Some dst) n = Some (r, Some s1, w1, Some d1)
           \<and> read_post w s dst (cur s + min n (end_s s - cur s)) 0 (r, s1, w1, d1)"
proof -
  note f = inv_facts[OF inv]
  have "LONG_MIN \<le> end_s s - n" "end_s s - n \<le> LONG_MAX"
    "LONG_MIN \<le> end_s s - cur s" "end_s s - cur s \<le> LONG_MAX"
    using f n unfolding LONG_MIN_def LONG_MAX_def by linarith+
  then have e: "lsub (end_s s) n = end_s s - n" "lsub (end_s s) (cur s) = end_s s - cur s"
    by (simp_all add: lsub_def wrap_long_id)
  define n1 where "n1 = min n (end_s s - cur s)"
  have n1: "(if cur s > lsub (end_s s) n then lsub (end_s s) (cur s) else n) = n1"
    by (auto simp: e n1_def)
  have r: "0 \<le> n1" "cur s + n1 \<le> end_s s" using f n by (simp_all add: n1_def)
  have "LONG_MIN \<le> cur s + n1" "cur s + n1 \<le> LONG_MAX"
    unfolding LONG_MIN_def using f r by linarith+
  then have b: "ladd (cur s) n1 = cur s + n1" by (simp add: ladd_def wrap_long_id)
  obtain res where l: "read_loop w s dst (cur s + n1) 0 = Some res"
    and p: "read_post w s dst (cur s + n1) 0 res"
    using read_loop_post[OF inv _ r(2) _ f(3), where w = w and dst = dst] r by auto
  obtain r0 s1 w1 d1 where res: "res = (r0, s1, w1, d1)" by (cases res)
  have "stream_read w (Some s) (Some dst) n = Some (r0, Some s1, w1, Some d1)"
    using n rd l by (simp add: stream_read_def n1 b res)
  then show ?thesis using p res by (simp add: n1_def)
qed

lemma seek_inside:
  assumes "stream_inv s" "0 \<le> p" "p \<le> end_s s"
  shows "stream_seek (Some s) p = (Inr p, Some (s\<lparr>cur := p\<rparr>))" "stream_inv (s\<lparr>cur := p\<rparr>)"
proof -
  show "stream_seek (Some s) p = (Inr p, Some (s\<lparr>cur := p\<rparr>))"
    using assms(2,3) by (cases "cur s = p") (auto simp: stream_seek_def Let_def)
  show "stream_inv (s\<lparr>cur := p\<rparr>)"
    using assms by (auto simp: stream_inv_def pos_inv_def window_ok_def split: option.splits)
qed

lemma map_upto_cong:
  assumes "\<And>i. 0 \<le> i \<Longrightarrow> i < n \<Longrightarrow> f i = g i"
  shows "map f [0..n - 1] = map g [0..n - 1]"
  using assms by (intro map_cong) auto

lemma stream_sync_eq:
  "stream_sync w (Some s) =
     (case buf s of None \<Rightarrow> (Inr 0, Some s, w)
      | Some m \<Rightarrow> (case os_next w of (Some e, w1) \<Rightarrow> (Inl e, Some s, w1)
                                    | (None, w1) \<Rightarrow> (Inr 0, Some s, w1)))"
  by (simp add: stream_sync_def os_msync_def cong: option.case_cong)

lemma stream_sync_once:
  assumes "stream_sync w (Some s) = (r, sp, w1)"
  shows "sp = Some s" "fdata w1 = fdata w" "fsize w1 = fsize w"
    "set (oserr w1) \<subseteq> set (oserr w)"
    "buf s = None \<Longrightarrow> r = Inr 0 \<and> w1 = w"
    "os_ok w \<Longrightarrow> r = Inr 0"
    "r = Inl e \<Longrightarrow> buf s \<noteq> None \<and> Some e \<in> set (oserr w)"
proof -
  obtain r0 w0 where n: "os_next w = (r0, w0)" by (cases "os_next w")
  note p = os_next_props[OF n]
  have c: "(buf s = None \<and> r = Inr 0 \<and> sp = Some s \<and> w1 = w)
         \<or> (buf s \<noteq> None \<and> r0 = None \<and> r = Inr 0 \<and> sp = Some s \<and> w1 = w0)
         \<or> (buf s \<noteq> None \<and> r0 = Some (projl r) \<and> r = Inl (projl r) \<and> sp = Some s \<and> w1 = w0)"
    using assms unfolding stream_sync_eq n
    by (cases "buf s"; cases r0) auto
  show "sp = Some s" using c by blast
  show "fdata w1 = fdata w" using c p(1) by auto
  show "fsize w1 = fsize w" using c p(2) by auto
  show "set (oserr w1) \<subseteq> set (oserr w)" using c p(3) by auto
  show "buf s = None \<Longrightarrow> r = Inr 0 \<and> w1 = w" using c by blast
  show "os_ok w \<Longrightarrow> r = Inr 0" using c p(5) by auto
  show "r = Inl e \<Longrightarrow> buf s \<noteq> None \<and> Some e \<in> set (oserr w)"
    using c p(4)[of e] by auto
qed

subsection \<open>The invariant in every reachable state\<close>

text \<open>
  \<open>stream_open\<close> establishes the invariant and every call keeps it, whatever it returns:
  the theorems stated for a control block in its invariant hold in every reachable state.
\<close>

lemma stream_open_inv:
  assumes "stream_open env path mode = Inr s"
  shows "stream_inv s"
proof -
  have "1 \<le> wrap_long (sc_pagesize env)"
    using assms by (auto simp: stream_open_def Let_def split: option.splits if_splits sum.splits)
  note b = block_size_bounds[OF this wrap_long_range(2)]
  show ?thesis
    using assms b
    by (auto simp: stream_open_def Let_def stream_inv_def pos_inv_def window_ok_def wrap_long_size
        split: option.splits if_splits sum.splits)
qed

lemma stream_write_inv:
  assumes inv: "stream_inv s" and n: "is_long n"
    and w: "stream_write w (Some s) srcp n = Some (r, Some s1, w1)"
  shows "stream_inv s1"
proof (cases "srcp = None \<or> n < 0 \<or> mod_s s AND PROT_WRITE \<noteq> PROT_WRITE \<or> cur s > lsub LONG_MAX n")
  case True
  then have "s1 = s" using w by (auto simp: stream_write_def split: option.splits if_splits)
  then show ?thesis using inv by simp
next
  case False
  then obtain src where src: "srcp = Some src" by auto
  have a: "0 \<le> n" "n \<le> LONG_MAX" "mod_s s AND PROT_WRITE = PROT_WRITE" "\<not> cur s > lsub LONG_MAX n"
    using False n by (auto simp: is_long_def)
  then have "cur s + n \<le> LONG_MAX" by (simp add: lsub_max)
  from stream_write_post[OF inv a(3) a(1) this, of w src] w
  show ?thesis by (auto simp: src write_post_def)
qed

lemma stream_read_inv:
  assumes inv: "stream_inv s" and n: "is_long n"
    and r: "stream_read w (Some s) dstp n = Some (r, Some s1, w1, dstp1)"
  shows "stream_inv s1"
proof (cases "dstp = None \<or> n < 0 \<or> mod_s s AND PROT_READ \<noteq> PROT_READ")
  case True
  then have "s1 = s" using r by (auto simp: stream_read_def split: option.splits if_splits)
  then show ?thesis using inv by simp
next
  case False
  then obtain dst where dst: "dstp = Some dst" by auto
  have a: "0 \<le> n" "n \<le> LONG_MAX" "mod_s s AND PROT_READ = PROT_READ"
    using False n by (auto simp: is_long_def)
  from stream_read_post[OF inv a(3) a(1,2), of w dst] r
  show ?thesis by (auto simp: dst read_post_def)
qed

lemma stream_seek_inv:
  assumes inv: "stream_inv s" and k: "stream_seek (Some s) pos = (r, Some s1)"
  shows "stream_inv s1"
  using assms
  by (auto simp: stream_seek_def Let_def stream_inv_def pos_inv_def window_ok_def
      split: if_splits option.splits)

lemma stream_sync_inv:
  assumes inv: "stream_inv s" and k: "stream_sync w (Some s) = (z, Some s1, w1)"
  shows "stream_inv s1"
  using assms by (auto simp: stream_sync_def split: option.splits prod.splits)

lemma reachable_inv: "reachable s \<Longrightarrow> stream_inv s"
proof (induction rule: reachable.induct)
  case (reach_open env path mode s)
  then show ?case by (rule stream_open_inv)
next
  case (reach_write s n w srcp r s1 w1)
  then show ?case using stream_write_inv by blast
next
  case (reach_read s n w dstp r s1 w1 dstp1)
  then show ?case using stream_read_inv by blast
next
  case (reach_seek s pos r s1)
  then show ?case using stream_seek_inv by blast
next
  case (reach_sync s w z s1 w1)
  then show ?case using stream_sync_inv by blast
qed

subsection \<open>Evaluation\<close>

lemma upto_0_9: "[0..9::int] = [0, 1, 2, 3, 4, 5, 6, 7, 8, 9]"
  by code_simp

lemmas eval_defs = stream_write_def stream_read_def stream_seek_def write_loop.simps read_loop.simps
  write_body_def read_body_def write_fault_def read_fault_def window_stale_def div_traps_def
  new_window_def map_window_def map_access_def os_mmap_def os_ftruncate_def os_next_def
  ladd_def lsub_def lmul_def ldiv_quot_def wrap_long_def LONG_MAX_def LONG_MIN_def
  PROT_READ_def PROT_WRITE_def Let_def copy_bytes_eq upto_0_9
  rw_demo_def file_demo_def demo_bytes_def demo_dst_def small_demo_def small_file_def
  fresh_demo_def win_demo_def

text \<open>The example stream, its file, and the calls that lead to the other examples.\<close>

lemma rw_demo_inv: "stream_inv rw_demo"
  by (simp add: rw_demo_def stream_inv_def pos_inv_def window_ok_def LONG_MAX_def)

lemma file_demo_ok: "os_ok file_demo" "os_ok small_file"
  by (simp_all add: os_ok_def file_demo_def small_file_def)

lemma demo_open: "stream_open demo_env (Some ''data'') ''r+'' = Inr rw_demo"
  by (simp add: stream_open_def demo_env_def rw_demo_def char_at_def open_flags_def
      prot_of_flags_def block_size_def wrap_long_def LONG_MAX_def Let_def
      O_RDWR_def O_RDONLY_def O_WRONLY_def O_ACCMODE_def PROT_READ_def PROT_WRITE_def)

lemma demo_read_10:
  "\<exists>w1 d. stream_read file_demo (Some rw_demo) (Some demo_dst) 10 = Some (Inr 10, Some win_demo, w1, d)"
  by (simp add: eval_defs)

lemma demo_write_block:
  "\<exists>w1. stream_write file_demo (Some rw_demo) (Some demo_bytes) 4096
     = Some (Inr 4096, Some (win_demo\<lparr>cur := 4096\<rparr>), w1)"
  by (simp add: eval_defs)

section \<open>The claims\<close>

subsection \<open>Round trip\<close>

text \<open>
  Claim C1, as the code has it. Take a stream in its invariant, opened for reading and
  writing, on a file that is not shorter than the stream believes, an absolute position
  \<open>0 \<le> p \<le> end\<close> and a length \<open>0 \<le> n\<close>. Seeking to \<open>p\<close>, writing \<open>n\<close> bytes,
  seeking to \<open>p\<close> again and reading \<open>n\<close> bytes: all four calls return, both seeks
  return \<open>p\<close>, the write returns \<open>n\<close> or an error and never a shorter count, and when
  the write returned \<open>n\<close> and the read succeeds, the read returns \<open>n\<close> and the bytes read
  are the bytes written, whatever windows the span crosses. When no system call fails
  and \<open>p + n\<close> is a block below the largest offset, both succeed.
\<close>

theorem round_trip_ok:
  assumes inv: "stream_inv s" and cpl: "coupled s w"
    and rd: "mod_s s AND PROT_READ = PROT_READ" and wr: "mod_s s AND PROT_WRITE = PROT_WRITE"
    and p: "0 \<le> p" "p \<le> end_s s" and n: "0 \<le> n" "n \<le> LONG_MAX"
  shows "\<exists>wr rd bytes. round_trip w s p src dst n = Some (Inr p, wr, Inr p, rd, bytes)
      \<and> (wr = Inr n \<or> (\<exists>e. wr = Inl e))
      \<and> (wr = Inr n \<and> (\<exists>m. rd = Inr m) \<longrightarrow> rd = Inr n \<and> bytes = map src [0..n - 1])
      \<and> (os_ok w \<and> p + n + blk s \<le> LONG_MAX \<longrightarrow> wr = Inr n \<and> rd = Inr n)"
proof -
  let ?s1 = "s\<lparr>cur := p\<rparr>"
  note k1 = seek_inside[OF inv p]
  have m1: "mod_s ?s1 AND PROT_WRITE = PROT_WRITE" "cur ?s1 = p" "end_s ?s1 = end_s s"
    "blk ?s1 = blk s" "mod_s ?s1 = mod_s s" "coupled ?s1 w"
    using wr cpl by (simp_all add: coupled_def)
  have "\<exists>r2 s2 w2. stream_write w (Some ?s1) (Some src) n = Some (r2, Some s2, w2)
      \<and> stream_inv s2 \<and> mod_s s2 = mod_s s \<and> blk s2 = blk s \<and> p \<le> end_s s2
      \<and> set (oserr w2) \<subseteq> set (oserr w)
      \<and> (r2 = Inr n \<or> (\<exists>e. r2 = Inl e))
      \<and> (r2 = Inr n \<longrightarrow> p + n \<le> end_s s2 \<and> (\<forall>q. p \<le> q \<and> q < p + n \<longrightarrow> fdata w2 q = src (q - p)))
      \<and> (os_ok w \<and> p + n + blk s \<le> LONG_MAX \<longrightarrow> r2 = Inr n)"
  proof (cases "p + n \<le> LONG_MAX")
    case False
    then have "stream_write w (Some ?s1) (Some src) n = Some (Inl EFBIG, Some ?s1, w)"
      using n m1 by (simp add: stream_write_def lsub_max)
    moreover have "\<not> (os_ok w \<and> p + n + blk s \<le> LONG_MAX)"
      using False inv_facts(1)[OF inv] by linarith
    ultimately show ?thesis using k1(2) p by simp
  next
    case True
    then have "cur ?s1 + n \<le> LONG_MAX" by simp
    from stream_write_post[OF k1(2) m1(1) n(1) this, of w src]
    obtain r2 s2 w2 where w: "stream_write w (Some ?s1) (Some src) n = Some (r2, Some s2, w2)"
      and q0: "write_post w ?s1 src (cur ?s1 + n) 0 (r2, s2, w2)" by blast
    from q0 have q: "stream_inv s2" "blk s2 = blk s" "mod_s s2 = mod_s s"
      "set (oserr w2) \<subseteq> set (oserr w)" "p \<le> cur s2" "end_s s2 = max (end_s s) (cur s2)"
      "case r2 of Inl e \<Rightarrow> True | Inr k \<Rightarrow> k = n \<and> cur s2 = p + n"
      "os_ok w \<and> p + n + blk s \<le> LONG_MAX \<longrightarrow> r2 = Inr n"
      "\<forall>q. p \<le> q \<and> q < cur s2 \<longrightarrow> fdata w2 q = src (q - p)"
      using m1(6) by (auto simp: write_post_def split: sum.splits)
    have a: "r2 = Inr n \<or> (\<exists>e. r2 = Inl e)" using q(7) by (cases r2) auto
    have b: "r2 = Inr n \<longrightarrow> p + n \<le> end_s s2 \<and> (\<forall>q. p \<le> q \<and> q < p + n \<longrightarrow> fdata w2 q = src (q - p))"
      using q(6,7,9) by auto
    have c: "p \<le> end_s s2" using q(5,6) by simp
    show ?thesis
      by (intro exI[of _ r2] exI[of _ s2] exI[of _ w2] conjI w q(1,3,2,4,8) a b c)
  qed
  then obtain r2 s2 w2 where w: "stream_write w (Some ?s1) (Some src) n = Some (r2, Some s2, w2)"
    and q: "stream_inv s2" "mod_s s2 = mod_s s" "blk s2 = blk s" "p \<le> end_s s2"
      "set (oserr w2) \<subseteq> set (oserr w)" "r2 = Inr n \<or> (\<exists>e. r2 = Inl e)"
      "r2 = Inr n \<longrightarrow> p + n \<le> end_s s2 \<and> (\<forall>q. p \<le> q \<and> q < p + n \<longrightarrow> fdata w2 q = src (q - p))"
      "os_ok w \<and> p + n + blk s \<le> LONG_MAX \<longrightarrow> r2 = Inr n"
    by (elim exE conjE) 
  let ?s3 = "s2\<lparr>cur := p\<rparr>"
  note k2 = seek_inside[OF q(1) p(1) q(4)]
  have m3: "mod_s ?s3 AND PROT_READ = PROT_READ" using rd q(2) by simp
  let ?m = "min n (end_s ?s3 - cur ?s3)"
  from stream_read_post[OF k2(2) m3 n, of w2 dst]
  obtain r4 s4 w4 d4 where r: "stream_read w2 (Some ?s3) (Some dst) n = Some (r4, Some s4, w4, Some d4)"
    and t0: "read_post w2 ?s3 dst (cur ?s3 + ?m) 0 (r4, s4, w4, d4)" by blast
  from t0 have t: "cur ?s3 \<le> cur s4"
    "case r4 of Inl e \<Rightarrow> True | Inr k \<Rightarrow> k = ?m \<and> cur s4 = cur ?s3 + ?m"
    "os_ok w2 \<and> cur ?s3 + ?m + blk ?s3 \<le> LONG_MAX \<longrightarrow> r4 = Inr ?m"
    "\<forall>i. 0 \<le> i \<and> i < cur s4 - cur ?s3 \<longrightarrow> d4 i = fdata w2 (cur ?s3 + i)"
    by (auto simp: read_post_def split: sum.splits)
  have rt: "round_trip w s p src dst n = Some (Inr p, r2, Inr p, r4, map d4 [0..n - 1])"
    by (simp add: round_trip_def k1(1) w k2(1) r)
  have full: "?m = n" if "r2 = Inr n"
    using that q(7) by simp
  have A: "r2 = Inr n \<and> (\<exists>m. r4 = Inr m) \<longrightarrow> r4 = Inr n \<and> map d4 [0..n - 1] = map src [0..n - 1]"
  proof
    assume a: "r2 = Inr n \<and> (\<exists>m. r4 = Inr m)"
    then obtain m where m: "r4 = Inr m" by blast
    have mn: "m = n" "cur s4 = p + n" using t(2) m full a by simp_all
    have "d4 i = src i" if "0 \<le> i" "i < n" for i
    proof -
      have "d4 i = fdata w2 (p + i)" using t(4) mn that by simp
      also have "\<dots> = src (p + i - p)" using q(7) a that by simp
      finally show ?thesis by simp
    qed
    then have "map d4 [0..n - 1] = map src [0..n - 1]" by (rule map_upto_cong)
    then show "r4 = Inr n \<and> map d4 [0..n - 1] = map src [0..n - 1]" using m mn by simp
  qed
  have B: "os_ok w \<and> p + n + blk s \<le> LONG_MAX \<longrightarrow> r2 = Inr n \<and> r4 = Inr n"
  proof
    assume a: "os_ok w \<and> p + n + blk s \<le> LONG_MAX"
    then have r2: "r2 = Inr n" using q(8) by simp
    have "os_ok w2" using a q(5) by (auto simp: os_ok_def)
    moreover have "cur ?s3 + ?m + blk ?s3 \<le> LONG_MAX" using a full[OF r2] q(3) by simp
    ultimately have "r4 = Inr ?m" using t(3) by simp
    then show "r2 = Inr n \<and> r4 = Inr n" using r2 full by simp
  qed
  show ?thesis
    by (intro exI[of _ r2] exI[of _ r4] exI[of _ "map d4 [0..n - 1]"] conjI rt q(6) A B)
qed

text \<open>
  The scenario of the specification: blocks of 4096 bytes, 10 bytes written at 4095 and
  read back across the boundary of the first two windows.
\<close>

theorem round_trip_ok_witness:
  "stream_inv rw_demo \<and> coupled rw_demo file_demo
   \<and> mod_s rw_demo AND PROT_READ = PROT_READ \<and> mod_s rw_demo AND PROT_WRITE = PROT_WRITE
   \<and> (0::int) \<le> 4095 \<and> 4095 \<le> end_s rw_demo \<and> (0::int) \<le> 10 \<and> 10 \<le> LONG_MAX
   \<and> os_ok file_demo \<and> 4095 + 10 + blk rw_demo \<le> LONG_MAX
   \<and> round_trip file_demo rw_demo 4095 demo_bytes demo_dst 10
       = Some (Inr 4095, Inr 10, Inr 4095, Inr 10, map demo_bytes [0..10 - 1])"
proof -
  have h: "stream_inv rw_demo" "coupled rw_demo file_demo"
    "mod_s rw_demo AND PROT_READ = PROT_READ" "mod_s rw_demo AND PROT_WRITE = PROT_WRITE"
    "(0::int) \<le> 4095" "4095 \<le> end_s rw_demo" "(0::int) \<le> 10" "10 \<le> LONG_MAX"
    by (simp_all add: stream_inv_def pos_inv_def window_ok_def coupled_def rw_demo_def
        file_demo_def PROT_READ_def PROT_WRITE_def LONG_MAX_def)
  have k: "os_ok file_demo \<and> 4095 + 10 + blk rw_demo \<le> LONG_MAX"
    by (simp add: file_demo_ok rw_demo_def LONG_MAX_def)
  from round_trip_ok [OF h, of demo_bytes demo_dst] k
  have "round_trip file_demo rw_demo 4095 demo_bytes demo_dst 10
       = Some (Inr 4095, Inr 10, Inr 4095, Inr 10, map demo_bytes [0..10 - 1])"
    by auto
  then show ?thesis using h k by simp
qed

text \<open>
  The claim as stated fails for a position relative to the end: with the end at 100,
  seeking to -1 is position 99; the 10 bytes written there move the end to 109, so the
  second seek to -1 is position 108, and the read returns the one byte left. It also
  fails when the system refuses a mapping to the read (here the fourth system call):
  the write succeeded and the read fails with the system's error.
\<close>

theorem round_trip_counterexample:
  "stream_inv small_demo \<and> coupled small_demo small_file \<and> mod_s small_demo = 3
   \<and> round_trip small_file small_demo (- 1) demo_bytes demo_dst 10
       = Some (Inr 99, Inr 10, Inr 108, Inr 1, [74, 0, 0, 0, 0, 0, 0, 0, 0, 0])
   \<and> round_trip (file_demo\<lparr>oserr := [None, None, None, Some ENOMEM]\<rparr>) rw_demo 4095
        demo_bytes demo_dst 10
       = Some (Inr 4095, Inr 10, Inr 4095, Inl ENOMEM, [0, 0, 0, 0, 0, 0, 0, 0, 0, 0])"
proof -
  have "stream_inv small_demo \<and> coupled small_demo small_file \<and> mod_s small_demo = 3"
    by (simp add: small_demo_def small_file_def rw_demo_def file_demo_def stream_inv_def
        pos_inv_def window_ok_def coupled_def LONG_MAX_def)
  moreover have "round_trip small_file small_demo (- 1) demo_bytes demo_dst 10
       = Some (Inr 99, Inr 10, Inr 108, Inr 1, [74, 0, 0, 0, 0, 0, 0, 0, 0, 0])"
    by (simp add: round_trip_def eval_defs)
  moreover have "round_trip (file_demo\<lparr>oserr := [None, None, None, Some ENOMEM]\<rparr>) rw_demo 4095
        demo_bytes demo_dst 10
       = Some (Inr 4095, Inr 10, Inr 4095, Inl ENOMEM, [0, 0, 0, 0, 0, 0, 0, 0, 0, 0])"
    by (simp add: round_trip_def eval_defs)
  ultimately show ?thesis by simp
qed

subsection \<open>Short reads\<close>

text \<open>
  Claim C2, as the code has it. On a stream in its invariant that may be read,
  \<open>stream_read\<close> with a buffer and a length \<open>0 \<le> n\<close> returns. When it succeeds, it
  returns \<open>min n (end - cursor)\<close>, the cursor has advanced by that count, the buffer
  holds the bytes of the file from the old cursor on, and the rest of the buffer is as
  it was. It succeeds when no system call fails and the end is a block below the
  largest offset. With the cursor at the end it returns 0 and changes nothing.
\<close>

theorem read_count:
  assumes "stream_inv s" "mod_s s AND PROT_READ = PROT_READ" "0 \<le> n" "n \<le> LONG_MAX"
  shows "\<exists>r s1 w1 d1. stream_read w (Some s) (Some dst) n = Some (r, Some s1, w1, Some d1)
     \<and> (\<forall>k. r = Inr k \<longrightarrow> k = min n (end_s s - cur s) \<and> cur s1 = cur s + k
            \<and> (\<forall>i. 0 \<le> i \<and> i < k \<longrightarrow> d1 i = fdata w (cur s + i))
            \<and> (\<forall>i. i < 0 \<or> k \<le> i \<longrightarrow> d1 i = dst i))
     \<and> (os_ok w \<and> end_s s + blk s \<le> LONG_MAX \<longrightarrow> r = Inr (min n (end_s s - cur s)))
     \<and> (cur s = end_s s \<longrightarrow> r = Inr 0 \<and> s1 = s \<and> w1 = w \<and> d1 = dst)"
proof -
  let ?m = "min n (end_s s - cur s)"
  obtain r s1 w1 d1 where a: "stream_read w (Some s) (Some dst) n = Some (r, Some s1, w1, Some d1)"
    and p: "read_post w s dst (cur s + ?m) 0 (r, s1, w1, d1)"
    using stream_read_post[OF assms, of w dst] by blast
  note f = inv_facts[OF assms(1)]
  have m: "0 \<le> ?m" "cur s + ?m \<le> end_s s" using f assms by simp_all
  from p have q: "cur s \<le> cur s1" "cur s1 \<le> cur s + ?m"
    "case r of Inl e \<Rightarrow> Some e \<in> set (oserr w) \<or> e = EOVERFLOW
      | Inr k \<Rightarrow> k = 0 + (cur s + ?m - cur s) \<and> cur s1 = cur s + ?m
                   \<and> (cur s < cur s + ?m \<longrightarrow> buf s1 \<noteq> None \<and> off s1 < cur s1 \<and> cur s1 \<le> brk s1)"
    "\<not> cur s < cur s + ?m \<longrightarrow> r = Inr 0 \<and> s1 = s \<and> w1 = w \<and> d1 = dst"
    "os_ok w \<and> cur s + ?m + blk s \<le> LONG_MAX \<longrightarrow> r = Inr (0 + (cur s + ?m - cur s))"
    "\<forall>i. i < 0 \<or> 0 + (cur s1 - cur s) \<le> i \<longrightarrow> d1 i = dst i"
    "\<forall>i. 0 \<le> i \<and> i < 0 + (cur s1 - cur s) \<longrightarrow> d1 i = fdata w (cur s + (i - 0))"
    by (simp_all add: read_post_def)
  have 1: "\<forall>k. r = Inr k \<longrightarrow> k = ?m \<and> cur s1 = cur s + k
            \<and> (\<forall>i. 0 \<le> i \<and> i < k \<longrightarrow> d1 i = fdata w (cur s + i))
            \<and> (\<forall>i. i < 0 \<or> k \<le> i \<longrightarrow> d1 i = dst i)"
  proof (intro allI impI)
    fix k assume "r = Inr k"
    then have k: "k = ?m" "cur s1 = cur s + ?m" using q(3) by simp_all
    then have "cur s1 - cur s = k" by simp
    then show "k = ?m \<and> cur s1 = cur s + k
            \<and> (\<forall>i. 0 \<le> i \<and> i < k \<longrightarrow> d1 i = fdata w (cur s + i))
            \<and> (\<forall>i. i < 0 \<or> k \<le> i \<longrightarrow> d1 i = dst i)"
      using k q(6,7) by simp
  qed
  have "os_ok w \<and> end_s s + blk s \<le> LONG_MAX \<longrightarrow> os_ok w \<and> cur s + ?m + blk s \<le> LONG_MAX"
    using m by linarith
  then have 2: "os_ok w \<and> end_s s + blk s \<le> LONG_MAX \<longrightarrow> r = Inr ?m"
    using q(5) by simp
  have "cur s = end_s s \<longrightarrow> ?m = 0" using assms(3) by simp
  then have 3: "cur s = end_s s \<longrightarrow> r = Inr 0 \<and> s1 = s \<and> w1 = w \<and> d1 = dst"
    using q(4) by simp
  show ?thesis
    by (intro exI[of _ r] exI[of _ s1] exI[of _ w1] exI[of _ d1] conjI a 1 2 3)
qed

text \<open>
  Five bytes before the end, a read of 10 bytes returns 5.
\<close>

theorem read_count_witness:
  "stream_inv (rw_demo\<lparr>cur := 4995\<rparr>)
   \<and> mod_s (rw_demo\<lparr>cur := 4995\<rparr>) AND PROT_READ = PROT_READ
   \<and> (0::int) \<le> 10 \<and> 10 \<le> LONG_MAX
   \<and> os_ok file_demo \<and> end_s (rw_demo\<lparr>cur := 4995\<rparr>) + blk (rw_demo\<lparr>cur := 4995\<rparr>) \<le> LONG_MAX
   \<and> (\<exists>s1 w1 d1. stream_read file_demo (Some (rw_demo\<lparr>cur := 4995\<rparr>)) (Some demo_dst) 10
         = Some (Inr 5, Some s1, w1, Some d1)
        \<and> cur s1 = 5000 \<and> d1 4 = fdata file_demo 4999 \<and> d1 5 = demo_dst 5)"
proof -
  let ?s = "rw_demo\<lparr>cur := 4995\<rparr>"
  have h: "stream_inv ?s" "mod_s ?s AND PROT_READ = PROT_READ" "(0::int) \<le> 10" "10 \<le> LONG_MAX"
    by (simp_all add: rw_demo_def stream_inv_def pos_inv_def window_ok_def PROT_READ_def LONG_MAX_def)
  have k: "os_ok file_demo \<and> end_s ?s + blk ?s \<le> LONG_MAX"
    by (simp add: file_demo_ok rw_demo_def LONG_MAX_def)
  have m: "min 10 (end_s ?s - cur ?s) = 5" "cur ?s = 4995" by (simp_all add: rw_demo_def)
  from read_count [OF h, of file_demo demo_dst] k
  obtain r s1 w1 d1 where
    a: "stream_read file_demo (Some ?s) (Some demo_dst) 10 = Some (r, Some s1, w1, Some d1)"
    and b: "\<forall>k. r = Inr k \<longrightarrow> k = min 10 (end_s ?s - cur ?s) \<and> cur s1 = cur ?s + k
            \<and> (\<forall>i. 0 \<le> i \<and> i < k \<longrightarrow> d1 i = fdata file_demo (cur ?s + i))
            \<and> (\<forall>i. i < 0 \<or> k \<le> i \<longrightarrow> d1 i = demo_dst i)"
    and c: "r = Inr (min 10 (end_s ?s - cur ?s))"
    by blast
  have r: "r = Inr 5" using c m by simp
  have "cur s1 = 5000 \<and> d1 4 = fdata file_demo 4999 \<and> d1 5 = demo_dst 5"
    using b r m by auto
  then show ?thesis using h k a r by blast
qed

text \<open>
  The claim as stated says that the read succeeds. It does not when \<open>mmap\<close> fails:
  the read returns the system's error, having copied nothing.
\<close>

theorem read_count_counterexample:
  "stream_inv rw_demo \<and> mod_s rw_demo AND PROT_READ = PROT_READ \<and> cur rw_demo \<le> end_s rw_demo
   \<and> stream_read (file_demo\<lparr>oserr := [Some ENOMEM]\<rparr>) (Some rw_demo) (Some demo_dst) 10
       = Some (Inl ENOMEM, Some (rw_demo\<lparr>len := 4096, brk := 4096\<rparr>), file_demo, Some demo_dst)"
proof -
  have "stream_read (file_demo\<lparr>oserr := [Some ENOMEM]\<rparr>) (Some rw_demo) (Some demo_dst) 10
       = Some (Inl ENOMEM, Some (rw_demo\<lparr>len := 4096, brk := 4096\<rparr>), file_demo, Some demo_dst)"
    by (simp add: eval_defs)
  then show ?thesis
    by (simp add: rw_demo_inv) (simp add: rw_demo_def PROT_READ_def)
qed

text \<open>
  Where the success of the read is not stated: on a file of the largest size, the end of
  the last window, \<open>s->off + s->len\<close>, wraps around, the window is not cut at the
  file's size, and \<open>mmap\<close> rejects the region.
\<close>

lemma read_at_largest_offset:
  "stream_inv big_demo \<and> os_ok file_demo
   \<and> stream_read file_demo (Some big_demo) (Some demo_dst) 5
       = Some (Inl EOVERFLOW,
           Some (big_demo\<lparr>off := 9223372036854771712, len := 4096, brk := - 9223372036854775808\<rparr>),
           file_demo, Some demo_dst)"
proof -
  have "stream_inv big_demo"
    by (simp add: big_demo_def rw_demo_def stream_inv_def pos_inv_def window_ok_def LONG_MAX_def)
  moreover have "stream_read file_demo (Some big_demo) (Some demo_dst) 5
       = Some (Inl EOVERFLOW,
           Some (big_demo\<lparr>off := 9223372036854771712, len := 4096, brk := - 9223372036854775808\<rparr>),
           file_demo, Some demo_dst)"
    by (simp add: eval_defs big_demo_def signed_divide_int_def)
  ultimately show ?thesis by (simp add: file_demo_ok)
qed

subsection \<open>Seek and tell\<close>

text \<open>
  Claim C3. For a stream with \<open>0 \<le> cursor \<le> end\<close> and a position \<open>p\<close> of type
  \<open>long\<close>, let \<open>q\<close> be \<open>p + end\<close> when \<open>p\<close> is negative and \<open>p\<close> otherwise. If
  \<open>0 \<le> q \<le> end\<close>, \<open>stream_seek\<close> returns \<open>q\<close> and \<open>stream_tell\<close> returns \<open>q\<close>
  afterwards; if not, \<open>stream_seek\<close> fails with \<open>ERANGE\<close> and leaves the stream as it
  was. So the seek succeeds exactly when \<open>0 \<le> q \<le> end\<close>.
\<close>

theorem seek_bounds:
  assumes "pos_inv s" "end_s s \<le> LONG_MAX" "LONG_MIN \<le> p" "p \<le> LONG_MAX"
  shows "let q = (if p < 0 then p + end_s s else p) in
     (0 \<le> q \<and> q \<le> end_s s \<longrightarrow>
        stream_seek (Some s) p = (Inr q, Some (s\<lparr>cur := q\<rparr>))
        \<and> stream_tell (Some (s\<lparr>cur := q\<rparr>)) = Inr q)
     \<and> (\<not> (0 \<le> q \<and> q \<le> end_s s) \<longrightarrow> stream_seek (Some s) p = (Inl ERANGE, Some s))"
proof -
  have e: "0 \<le> cur s" "cur s \<le> end_s s" using assms(1) by (simp_all add: pos_inv_def)
  have "p < 0 \<Longrightarrow> ladd p (end_s s) = p + end_s s"
  proof -
    assume "p < 0"
    then have "LONG_MIN \<le> p + end_s s" "p + end_s s \<le> LONG_MAX"
      using e assms by linarith+
    then show ?thesis by (simp add: ladd_def wrap_long_id)
  qed
  then show ?thesis
    using e by (cases "cur s = p") (auto simp: stream_seek_def stream_tell_def Let_def)
qed

text \<open>
  With the end at 100, a seek to -1 gives 99 and a seek to -200 is out of range.
\<close>

theorem seek_bounds_witness:
  "pos_inv seek_demo \<and> end_s seek_demo \<le> LONG_MAX
   \<and> LONG_MIN \<le> - 200 \<and> (- 1 :: int) \<le> LONG_MAX
   \<and> stream_seek (Some seek_demo) (- 1) = (Inr 99, Some (seek_demo\<lparr>cur := 99\<rparr>))
   \<and> stream_tell (Some (seek_demo\<lparr>cur := 99\<rparr>)) = Inr 99
   \<and> stream_seek (Some seek_demo) (- 200) = (Inl ERANGE, Some seek_demo)"
proof -
  have h: "pos_inv seek_demo" "end_s seek_demo \<le> LONG_MAX"
    "LONG_MIN \<le> - 200" "LONG_MIN \<le> - 1" "(- 1 :: int) \<le> LONG_MAX" "(- 200 :: int) \<le> LONG_MAX"
    by (simp_all add: seek_demo_def pos_inv_def LONG_MAX_def LONG_MIN_def)
  have e: "end_s seek_demo = 100" by (simp add: seek_demo_def)
  show ?thesis
    using h seek_bounds [OF h(1,2,4,5)] seek_bounds [OF h(1,2,3,6)]
    by (simp add: e)
qed

subsection \<open>No short write\<close>

text \<open>
  Claim C4. On a stream in its invariant that may be written, with a buffer, a length
  \<open>0 \<le> n\<close> and \<open>cursor + n\<close> not beyond \<open>LONG_MAX\<close>, \<open>stream_write\<close> returns; when
  it returns a count, the count is \<open>n\<close> and the cursor has advanced by \<open>n\<close>. It does
  return \<open>n\<close> when no system call fails and \<open>cursor + n\<close> is a block below the largest
  offset.
\<close>

theorem write_count:
  assumes "stream_inv s" "mod_s s AND PROT_WRITE = PROT_WRITE" "0 \<le> n" "cur s + n \<le> LONG_MAX"
  shows "\<exists>r s1 w1. stream_write w (Some s) (Some src) n = Some (r, Some s1, w1)
           \<and> (\<forall>k. r = Inr k \<longrightarrow> k = n \<and> cur s1 = cur s + n)
           \<and> (os_ok w \<and> cur s + n + blk s \<le> LONG_MAX \<longrightarrow> r = Inr n)"
proof -
  obtain r s1 w1 where a: "stream_write w (Some s) (Some src) n = Some (r, Some s1, w1)"
    and p: "write_post w s src (cur s + n) 0 (r, s1, w1)"
    using stream_write_post[OF assms] by blast
  have "\<forall>k. r = Inr k \<longrightarrow> k = n \<and> cur s1 = cur s + n"
    using p by (auto simp: write_post_def)
  moreover have "os_ok w \<and> cur s + n + blk s \<le> LONG_MAX \<longrightarrow> r = Inr n"
    using p by (simp add: write_post_def)
  ultimately show ?thesis using a by blast
qed

text \<open>
  Ten bytes written at 4095, across the end of the first window.
\<close>

theorem write_count_witness:
  "stream_inv (rw_demo\<lparr>cur := 4095\<rparr>)
   \<and> mod_s (rw_demo\<lparr>cur := 4095\<rparr>) AND PROT_WRITE = PROT_WRITE
   \<and> (0::int) \<le> 10 \<and> cur (rw_demo\<lparr>cur := 4095\<rparr>) + 10 \<le> LONG_MAX
   \<and> os_ok file_demo \<and> cur (rw_demo\<lparr>cur := 4095\<rparr>) + 10 + blk (rw_demo\<lparr>cur := 4095\<rparr>) \<le> LONG_MAX
   \<and> (\<exists>s1 w1. stream_write file_demo (Some (rw_demo\<lparr>cur := 4095\<rparr>)) (Some demo_bytes) 10
         = Some (Inr 10, Some s1, w1) \<and> cur s1 = 4105)"
proof -
  let ?s = "rw_demo\<lparr>cur := 4095\<rparr>"
  have h: "stream_inv ?s" "mod_s ?s AND PROT_WRITE = PROT_WRITE" "(0::int) \<le> 10"
    "cur ?s + 10 \<le> LONG_MAX"
    by (simp_all add: rw_demo_def stream_inv_def pos_inv_def window_ok_def PROT_WRITE_def LONG_MAX_def)
  have k: "os_ok file_demo \<and> cur ?s + 10 + blk ?s \<le> LONG_MAX"
    by (simp add: file_demo_ok rw_demo_def LONG_MAX_def)
  from write_count [OF h, of file_demo demo_bytes] k
  obtain r s1 w1 where
    a: "stream_write file_demo (Some ?s) (Some demo_bytes) 10 = Some (r, Some s1, w1)"
    and b: "\<forall>k. r = Inr k \<longrightarrow> k = 10 \<and> cur s1 = cur ?s + 10"
    and c: "r = Inr 10"
    by blast
  have "cur s1 = 4105" using b c by (simp add: rw_demo_def)
  then show ?thesis using h k a c by blast
qed

subsection \<open>The invariant of the positions\<close>

text \<open>
  Claim C5. In every state that a stream reaches, by \<open>stream_open\<close> and then any
  calls of \<open>stream_write\<close>, \<open>stream_read\<close>, \<open>stream_seek\<close> and \<open>stream_sync\<close>,
  successful or not, \<open>0 \<le> cursor \<le> end \<le> tracked file size\<close>.
\<close>

theorem positions_invariant:
  assumes "reachable s"
  shows "0 \<le> cur s \<and> cur s \<le> end_s s \<and> end_s s \<le> siz s"
  using reachable_inv[OF assms] by (simp add: stream_inv_def pos_inv_def)

text \<open>
  The stream that \<open>stream_open\<close> returns on the example system, and that stream after
  a write of 10 bytes.
\<close>

theorem positions_invariant_witness:
  "stream_open demo_env (Some ''data'') ''r+'' = Inr rw_demo \<and> reachable rw_demo
   \<and> (\<exists>s1 w1. stream_write file_demo (Some rw_demo) (Some demo_bytes) 10 = Some (Inr 10, Some s1, w1)
        \<and> reachable s1 \<and> 0 \<le> cur s1 \<and> cur s1 \<le> end_s s1 \<and> end_s s1 \<le> siz s1)"
proof -
  have r0: "reachable rw_demo" by (rule reach_open [OF demo_open])
  have "mod_s rw_demo AND PROT_WRITE = PROT_WRITE" "(0::int) \<le> 10" "cur rw_demo + 10 \<le> LONG_MAX"
    by (simp_all add: rw_demo_def PROT_WRITE_def LONG_MAX_def)
  from stream_write_post [OF rw_demo_inv this, of file_demo demo_bytes]
  obtain r s1 w1 where
    a: "stream_write file_demo (Some rw_demo) (Some demo_bytes) 10 = Some (r, Some s1, w1)"
    and p: "write_post file_demo rw_demo demo_bytes (cur rw_demo + 10) 0 (r, s1, w1)"
    by blast
  have "os_ok file_demo \<and> cur rw_demo + 10 + blk rw_demo \<le> LONG_MAX"
    by (simp add: file_demo_ok rw_demo_def LONG_MAX_def)
  then have r: "r = Inr 10" using p by (simp add: write_post_def)
  have "is_long 10" by (simp add: is_long_def LONG_MIN_def LONG_MAX_def)
  then have r1: "reachable s1" using reach_write [OF r0 _ a] by simp
  from positions_invariant [OF r1] show ?thesis using demo_open r0 a r r1 by blast
qed

subsection \<open>The block size\<close>

text \<open>
  Claim C6. When \<open>stream_open\<close> succeeds, the block size is the page size or the
  preferred block size that \<open>fstat\<close> reported; it differs from the page size only when
  the preferred size is \<open>k\<close> times the page size for some \<open>k > 1\<close>; and it is the
  preferred size whenever that is such a multiple and is below \<open>LONG_MAX\<close>.
\<close>

theorem open_block_size:
  assumes "stream_open env path mode = Inr s"
  shows "\<exists>p fd st page. path = Some p \<and> sys_open env p (open_flags mode) = Inr fd
     \<and> sys_fstat env (int fd) = Inr st \<and> page = wrap_long (sc_pagesize env) \<and> 1 \<le> page
     \<and> (blk s = page \<or> blk s = st_blksize st)
     \<and> (blk s \<noteq> page \<longrightarrow> (\<exists>k. 1 < k \<and> st_blksize st = k * page))
     \<and> ((\<exists>k. 1 < k \<and> st_blksize st = k * page) \<and> st_blksize st < LONG_MAX
          \<longrightarrow> blk s = st_blksize st)"
proof -
  from assms obtain p fd st where o: "path = Some p" "sys_open env p (open_flags mode) = Inr fd"
    "sys_fstat env (int fd) = Inr st" "1 \<le> wrap_long (sc_pagesize env)"
    and b: "blk s = block_size (wrap_long (sc_pagesize env)) (st_blksize st)"
    by (auto simp: stream_open_def Let_def split: option.splits if_splits sum.splits)
  let ?page = "wrap_long (sc_pagesize env)"
  let ?pref = "st_blksize st"
  note e = block_size_eq[OF o(4) wrap_long_range(2), of ?pref]
  have 1: "blk s = ?page \<or> blk s = ?pref" using b e by auto
  have 2: "blk s \<noteq> ?page \<longrightarrow> (\<exists>k. 1 < k \<and> ?pref = k * ?page)"
  proof
    assume "blk s \<noteq> ?page"
    then have c: "?page < ?pref" "?pref mod ?page = 0" using b e by (auto split: if_splits)
    from div_mult_mod_eq[of ?pref ?page] c have d: "?pref div ?page * ?page = ?pref" by simp
    have "1 < ?pref div ?page"
    proof (rule ccontr)
      assume "\<not> 1 < ?pref div ?page"
      then have "?pref div ?page * ?page \<le> 1 * ?page" using o(4) by (intro mult_right_mono) simp_all
      then show False using c d by simp
    qed
    then show "\<exists>k. 1 < k \<and> ?pref = k * ?page" using d by (intro exI[of _ "?pref div ?page"]) simp
  qed
  have 3: "(\<exists>k. 1 < k \<and> ?pref = k * ?page) \<and> ?pref < LONG_MAX \<longrightarrow> blk s = ?pref"
  proof
    assume a: "(\<exists>k. 1 < k \<and> ?pref = k * ?page) \<and> ?pref < LONG_MAX"
    then obtain k where k: "1 < k" "?pref = k * ?page" by blast
    then have "?page < ?pref" using o(4) by simp
    moreover have "?pref mod ?page = 0" using k by simp
    ultimately show "blk s = ?pref" using a b e by simp
  qed
  show ?thesis using o 1 2 3 by blast
qed

text \<open>
  Pages of 4096 bytes and a preferred block size of 8192: the block size is 8192.
\<close>

theorem open_block_size_witness:
  "stream_open big_env (Some ''data'') ''w+'' = Inr (fresh_demo\<lparr>blk := 8192\<rparr>)
   \<and> (\<exists>fd st. sys_open big_env ''data'' (open_flags ''w+'') = Inr fd
        \<and> sys_fstat big_env (int fd) = Inr st \<and> st_blksize st = 8192)
   \<and> wrap_long (sc_pagesize big_env) = 4096
   \<and> (\<exists>k. 1 < k \<and> (8192::int) = k * 4096) \<and> (8192::int) < LONG_MAX
   \<and> blk (fresh_demo\<lparr>blk := 8192\<rparr>) = 8192"
proof -
  have o: "stream_open big_env (Some ''data'') ''w+'' = Inr (fresh_demo\<lparr>blk := 8192\<rparr>)"
    by (simp add: stream_open_def big_env_def demo_env_def fresh_demo_def rw_demo_def char_at_def
      open_flags_def prot_of_flags_def block_size_def wrap_long_def LONG_MAX_def Let_def
      ldiv_rem_def ldiv_quot_def signed_divide_int_def signed_modulo_int_def
      O_RDWR_def O_RDONLY_def O_WRONLY_def O_ACCMODE_def O_CREAT_def O_TRUNC_def
      PROT_READ_def PROT_WRITE_def)
  have e: "wrap_long (sc_pagesize big_env) = 4096" "(8192::int) < LONG_MAX"
    by (simp_all add: big_env_def demo_env_def wrap_long_def LONG_MAX_def)
  from open_block_size [OF o]
  obtain p fd st page where q: "Some ''data'' = Some p"
    "sys_open big_env p (open_flags ''w+'') = Inr fd" "sys_fstat big_env (int fd) = Inr st"
    "page = wrap_long (sc_pagesize big_env)"
    "blk (fresh_demo\<lparr>blk := 8192\<rparr>) \<noteq> page \<longrightarrow> (\<exists>k. 1 < k \<and> st_blksize st = k * page)"
    by blast
  have st: "st_blksize st = 8192" using q(3) by (auto simp: big_env_def demo_env_def)
  have "\<exists>k. 1 < k \<and> (8192::int) = k * 4096" using q(4,5) e st by (simp add: fresh_demo_def rw_demo_def)
  then show ?thesis using o e q st by (auto simp: fresh_demo_def rw_demo_def)
qed

subsection \<open>File too large\<close>

text \<open>
  Claim C7, as the code has it. On a stream that may be written, with a buffer and a
  length \<open>0 \<le> n\<close> of type \<open>long\<close>: if \<open>cursor + n\<close> is beyond \<open>LONG_MAX\<close>,
  \<open>stream_write\<close> fails with \<open>EFBIG\<close> and leaves the stream and the file as they were.
  If it is not, and the stream is in its invariant, \<open>stream_write\<close> fails with
  \<open>EFBIG\<close> only when that is the error a system call reported.
\<close>

theorem write_too_large:
  assumes "mod_s s AND PROT_WRITE = PROT_WRITE" "0 \<le> n" "n \<le> LONG_MAX"
  shows "(LONG_MAX < cur s + n \<longrightarrow>
            stream_write w (Some s) (Some src) n = Some (Inl EFBIG, Some s, w))
       \<and> (stream_inv s \<and> cur s + n \<le> LONG_MAX \<longrightarrow>
            (\<exists>r s1 w1. stream_write w (Some s) (Some src) n = Some (r, Some s1, w1)
               \<and> (r = Inl EFBIG \<longrightarrow> Some EFBIG \<in> set (oserr w))))"
proof (intro conjI impI)
  assume "LONG_MAX < cur s + n"
  then show "stream_write w (Some s) (Some src) n = Some (Inl EFBIG, Some s, w)"
    using assms by (simp add: stream_write_def lsub_max)
next
  assume a: "stream_inv s \<and> cur s + n \<le> LONG_MAX"
  then obtain r s1 w1 where w: "stream_write w (Some s) (Some src) n = Some (r, Some s1, w1)"
    and p: "write_post w s src (cur s + n) 0 (r, s1, w1)"
    using stream_write_post[OF _ assms(1,2), of w src] by blast
  have "r = Inl EFBIG \<longrightarrow> Some EFBIG \<in> set (oserr w)"
    using p by (auto simp: write_post_def)
  then show "\<exists>r s1 w1. stream_write w (Some s) (Some src) n = Some (r, Some s1, w1)
               \<and> (r = Inl EFBIG \<longrightarrow> Some EFBIG \<in> set (oserr w))"
    using w by blast
qed

text \<open>
  A cursor 7 bytes below \<open>LONG_MAX\<close> and 10 bytes to write; and a write that does not
  overflow on a system where no call fails.
\<close>

theorem write_too_large_witness:
  "mod_s big_demo AND PROT_WRITE = PROT_WRITE \<and> (0::int) \<le> 10 \<and> 10 \<le> LONG_MAX
   \<and> LONG_MAX < cur big_demo + 10
   \<and> stream_write file_demo (Some big_demo) (Some demo_bytes) 10
       = Some (Inl EFBIG, Some big_demo, file_demo)
   \<and> stream_inv rw_demo \<and> cur rw_demo + 10 \<le> LONG_MAX
   \<and> (\<exists>r s1 w1. stream_write file_demo (Some rw_demo) (Some demo_bytes) 10 = Some (r, Some s1, w1)
         \<and> r \<noteq> Inl EFBIG)"
proof -
  have h: "mod_s big_demo AND PROT_WRITE = PROT_WRITE" "(0::int) \<le> 10" "10 \<le> LONG_MAX"
    "mod_s rw_demo AND PROT_WRITE = PROT_WRITE"
    by (simp_all add: big_demo_def rw_demo_def PROT_WRITE_def LONG_MAX_def)
  have k: "LONG_MAX < cur big_demo + 10" "stream_inv rw_demo \<and> cur rw_demo + 10 \<le> LONG_MAX"
    "Some EFBIG \<notin> set (oserr file_demo)"
    by (simp_all add: big_demo_def rw_demo_inv) (simp_all add: rw_demo_def file_demo_def LONG_MAX_def)
  from write_too_large [OF h(1,2,3), of file_demo demo_bytes] k(1)
  have a: "stream_write file_demo (Some big_demo) (Some demo_bytes) 10
       = Some (Inl EFBIG, Some big_demo, file_demo)" by blast
  from write_too_large [OF h(4,2,3), of file_demo demo_bytes] k(2,3)
  have b: "\<exists>r s1 w1. stream_write file_demo (Some rw_demo) (Some demo_bytes) 10 = Some (r, Some s1, w1)
         \<and> r \<noteq> Inl EFBIG" by blast
  show ?thesis using h k a b by blast
qed

text \<open>
  The claim as stated says exactly when. On a new file, a write of one byte whose
  \<open>ftruncate\<close> fails with \<open>EFBIG\<close> fails with \<open>EFBIG\<close> and leaves the cursor, the end
  and the file size as they were, and \<open>cursor + 1\<close> does not overflow.
\<close>

theorem write_too_large_counterexample:
  "stream_inv fresh_demo \<and> mod_s fresh_demo AND PROT_WRITE = PROT_WRITE
   \<and> stream_write (file_demo\<lparr>fsize := 0, oserr := [Some EFBIG]\<rparr>) (Some fresh_demo) (Some demo_bytes) 1
       = Some (Inl EFBIG, Some (fresh_demo\<lparr>len := 4096, brk := 4096\<rparr>), file_demo\<lparr>fsize := 0\<rparr>)
   \<and> cur (fresh_demo\<lparr>len := 4096, brk := 4096\<rparr>) = cur fresh_demo
   \<and> end_s (fresh_demo\<lparr>len := 4096, brk := 4096\<rparr>) = end_s fresh_demo
   \<and> siz (fresh_demo\<lparr>len := 4096, brk := 4096\<rparr>) = siz fresh_demo
   \<and> fsize (file_demo\<lparr>fsize := 0\<rparr>) = fsize (file_demo\<lparr>fsize := 0, oserr := [Some EFBIG]\<rparr>)
   \<and> cur fresh_demo + 1 \<le> LONG_MAX"
proof -
  have "stream_write (file_demo\<lparr>fsize := 0, oserr := [Some EFBIG]\<rparr>) (Some fresh_demo) (Some demo_bytes) 1
       = Some (Inl EFBIG, Some (fresh_demo\<lparr>len := 4096, brk := 4096\<rparr>), file_demo\<lparr>fsize := 0\<rparr>)"
    by (simp add: eval_defs)
  moreover have "stream_inv fresh_demo \<and> mod_s fresh_demo AND PROT_WRITE = PROT_WRITE"
    by (simp add: fresh_demo_def rw_demo_def stream_inv_def pos_inv_def window_ok_def
        PROT_WRITE_def LONG_MAX_def)
  ultimately show ?thesis by (simp add: fresh_demo_def rw_demo_def LONG_MAX_def)
qed

subsection \<open>Sync\<close>

text \<open>
  Claim C8, as the code has it. \<open>stream_sync\<close> leaves the control block and the
  file's bytes and size as they are, also when called twice. Without a window both
  calls return 0 and touch nothing; when no system call fails both return 0; a call
  fails only with a window held, with the error that \<open>msync\<close> reported.
\<close>

theorem sync_frame:
  "\<exists>r1 w1 r2 w2. stream_sync w (Some s) = (r1, Some s, w1)
     \<and> stream_sync w1 (Some s) = (r2, Some s, w2)
     \<and> fdata w1 = fdata w \<and> fsize w1 = fsize w \<and> fdata w2 = fdata w \<and> fsize w2 = fsize w
     \<and> (buf s = None \<longrightarrow> r1 = Inr 0 \<and> r2 = Inr 0 \<and> w1 = w \<and> w2 = w)
     \<and> (os_ok w \<longrightarrow> r1 = Inr 0 \<and> r2 = Inr 0)
     \<and> (\<forall>e. r1 = Inl e \<or> r2 = Inl e \<longrightarrow> buf s \<noteq> None \<and> Some e \<in> set (oserr w))"
proof -
  obtain r1 sp1 w1 where s1: "stream_sync w (Some s) = (r1, sp1, w1)"
    by (cases "stream_sync w (Some s)")
  note 1 = stream_sync_once[OF s1]
  obtain r2 sp2 w2 where s2: "stream_sync w1 (Some s) = (r2, sp2, w2)"
    by (cases "stream_sync w1 (Some s)")
  note 2 = stream_sync_once[OF s2]
  have k: "os_ok w \<Longrightarrow> os_ok w1" using 1(4) by (auto simp: os_ok_def)
  have a: "os_ok w \<longrightarrow> r1 = Inr 0 \<and> r2 = Inr 0" using 1(6) 2(6) k by blast
  have b: "\<forall>e. r1 = Inl e \<or> r2 = Inl e \<longrightarrow> buf s \<noteq> None \<and> Some e \<in> set (oserr w)"
  proof (intro allI impI)
    fix e assume "r1 = Inl e \<or> r2 = Inl e"
    then show "buf s \<noteq> None \<and> Some e \<in> set (oserr w)"
    proof
      assume "r1 = Inl e" then show ?thesis using 1(7) by simp
    next
      assume "r2 = Inl e"
      then have "buf s \<noteq> None \<and> Some e \<in> set (oserr w1)" using 2(7) by simp
      then show ?thesis using 1(4) by auto
    qed
  qed
  have c: "buf s = None \<longrightarrow> r1 = Inr 0 \<and> r2 = Inr 0 \<and> w1 = w \<and> w2 = w"
    using 1(5) 2(5) by simp
  have d: "fdata w1 = fdata w \<and> fsize w1 = fsize w \<and> fdata w2 = fdata w \<and> fsize w2 = fsize w"
    using 1(2,3) 2(2,3) by simp
  have e1: "stream_sync w (Some s) = (r1, Some s, w1)" using s1 1(1) by simp
  have e2: "stream_sync w1 (Some s) = (r2, Some s, w2)" using s2 2(1) by simp
  show ?thesis
    by (intro exI[of _ r1] exI[of _ w1] exI[of _ r2] exI[of _ w2] conjI e1 e2 a b c)
      (simp_all add: d)
qed

text \<open>
  Two syncs without a window, and two with a window, on a system where no call fails.
\<close>

theorem sync_frame_witness:
  "buf rw_demo = None \<and> os_ok file_demo
   \<and> stream_sync file_demo (Some rw_demo) = (Inr 0, Some rw_demo, file_demo)
   \<and> (\<exists>w1 w2. stream_sync file_demo (Some win_demo) = (Inr 0, Some win_demo, w1)
         \<and> stream_sync w1 (Some win_demo) = (Inr 0, Some win_demo, w2)
         \<and> fdata w2 = fdata file_demo \<and> fsize w2 = fsize file_demo)"
proof -
  have h: "buf rw_demo = None" "os_ok file_demo" by (simp_all add: rw_demo_def file_demo_ok)
  from sync_frame [of file_demo rw_demo] h(1)
  have a: "stream_sync file_demo (Some rw_demo) = (Inr 0, Some rw_demo, file_demo)" by auto
  from sync_frame [of file_demo win_demo] h(2)
  have b: "\<exists>w1 w2. stream_sync file_demo (Some win_demo) = (Inr 0, Some win_demo, w1)
         \<and> stream_sync w1 (Some win_demo) = (Inr 0, Some win_demo, w2)
         \<and> fdata w2 = fdata file_demo \<and> fsize w2 = fsize file_demo" by auto
  show ?thesis using h a b by blast
qed

text \<open>
  The claim as stated says that the syncs succeed. With a window held and \<open>msync\<close>
  failing, \<open>stream_sync\<close> fails.
\<close>

theorem sync_frame_counterexample:
  "stream_inv win_demo \<and> buf win_demo = Some (0, 4096)
   \<and> stream_sync (file_demo\<lparr>oserr := [Some EIO]\<rparr>) (Some win_demo)
       = (Inl EIO, Some win_demo, file_demo)"
  by (simp add: stream_sync_def os_msync_def os_next_def win_demo_def rw_demo_def file_demo_def
      stream_inv_def pos_inv_def window_ok_def LONG_MAX_def)

subsection \<open>The window and the cursor\<close>

text \<open>
  Claim C9, as the code has it. On a stream in its invariant, after a successful write
  of \<open>n > 0\<close> bytes, and after a successful read that returned \<open>k > 0\<close> bytes, a window
  is held and \<open>window offset < cursor \<le> window bound\<close>. \<open>stream_seek\<close> leaves the
  window as it is.
\<close>

theorem window_after_transfer:
  assumes "stream_inv s" "0 < n" "n \<le> LONG_MAX"
  shows "(mod_s s AND PROT_WRITE = PROT_WRITE
            \<and> stream_write w (Some s) (Some src) n = Some (Inr k, Some s1, w1)
          \<longrightarrow> buf s1 \<noteq> None \<and> off s1 < cur s1 \<and> cur s1 \<le> brk s1)
       \<and> (mod_s s AND PROT_READ = PROT_READ \<and> 0 < k
            \<and> stream_read w (Some s) (Some dst) n = Some (Inr k, Some s1, w1, dp)
          \<longrightarrow> buf s1 \<noteq> None \<and> off s1 < cur s1 \<and> cur s1 \<le> brk s1)
       \<and> (stream_seek (Some s) p = (r, Some s1)
          \<longrightarrow> buf s1 = buf s \<and> off s1 = off s \<and> len s1 = len s \<and> brk s1 = brk s)"
proof -
  have 1: "buf s1 \<noteq> None \<and> off s1 < cur s1 \<and> cur s1 \<le> brk s1"
    if a: "mod_s s AND PROT_WRITE = PROT_WRITE
            \<and> stream_write w (Some s) (Some src) n = Some (Inr k, Some s1, w1)"
  proof -
    have "\<not> cur s > lsub LONG_MAX n"
      using a assms by (auto simp: stream_write_def split: if_splits)
    then have "cur s + n \<le> LONG_MAX" using assms by (simp add: lsub_max)
    from stream_write_post[OF assms(1) _ _ this, of w src] a assms(2)
    show ?thesis by (auto simp: write_post_def)
  qed
  have 2: "buf s1 \<noteq> None \<and> off s1 < cur s1 \<and> cur s1 \<le> brk s1"
    if a: "mod_s s AND PROT_READ = PROT_READ \<and> 0 < k
            \<and> stream_read w (Some s) (Some dst) n = Some (Inr k, Some s1, w1, dp)"
  proof -
    from stream_read_post[OF assms(1) _ _ assms(3), of w dst] a assms(2)
    have p: "read_post w s dst (cur s + min n (end_s s - cur s)) 0 (Inr k, s1, w1, the dp)"
      by auto
    then have "k = min n (end_s s - cur s)" by (simp add: read_post_def)
    then have "cur s < cur s + min n (end_s s - cur s)" using a by simp
    then show ?thesis using p by (simp add: read_post_def)
  qed
  have 3: "buf s1 = buf s \<and> off s1 = off s \<and> len s1 = len s \<and> brk s1 = brk s"
    if "stream_seek (Some s) p = (r, Some s1)"
    using that by (auto simp: stream_seek_def Let_def split: if_splits)
  show ?thesis using 1 2 3 by blast
qed

text \<open>
  A write and a read of 10 bytes, and a seek with a window held.
\<close>

theorem window_after_transfer_witness:
  "stream_inv rw_demo \<and> (0::int) < 10 \<and> 10 \<le> LONG_MAX
   \<and> mod_s rw_demo AND PROT_WRITE = PROT_WRITE \<and> mod_s rw_demo AND PROT_READ = PROT_READ
   \<and> (\<exists>s1 w1. stream_write file_demo (Some rw_demo) (Some demo_bytes) 10 = Some (Inr 10, Some s1, w1)
         \<and> buf s1 \<noteq> None \<and> off s1 < cur s1 \<and> cur s1 \<le> brk s1)
   \<and> (\<exists>s1 w1 d1. stream_read file_demo (Some rw_demo) (Some demo_dst) 10
           = Some (Inr 10, Some s1, w1, Some d1)
         \<and> buf s1 \<noteq> None \<and> off s1 < cur s1 \<and> cur s1 \<le> brk s1)
   \<and> stream_seek (Some win_demo) 5000 = (Inr 5000, Some (win_demo\<lparr>cur := 5000\<rparr>))
   \<and> buf (win_demo\<lparr>cur := 5000\<rparr>) = buf win_demo \<and> brk (win_demo\<lparr>cur := 5000\<rparr>) = brk win_demo"
proof -
  have h: "stream_inv rw_demo" "(0::int) < 10" "10 \<le> LONG_MAX"
    by (simp_all add: rw_demo_inv LONG_MAX_def)
  have m: "mod_s rw_demo AND PROT_WRITE = PROT_WRITE" "mod_s rw_demo AND PROT_READ = PROT_READ"
    "(0::int) \<le> 10" "cur rw_demo + 10 \<le> LONG_MAX"
    by (simp_all add: rw_demo_def PROT_WRITE_def PROT_READ_def LONG_MAX_def)
  have ok: "os_ok file_demo \<and> cur rw_demo + 10 + blk rw_demo \<le> LONG_MAX"
    "min 10 (end_s rw_demo - cur rw_demo) = 10"
    by (simp_all add: file_demo_ok rw_demo_def LONG_MAX_def)
  from stream_write_post [OF h(1) m(1,3,4), of file_demo demo_bytes]
  obtain r s1 w1 where
    a: "stream_write file_demo (Some rw_demo) (Some demo_bytes) 10 = Some (r, Some s1, w1)"
    and p: "write_post file_demo rw_demo demo_bytes (cur rw_demo + 10) 0 (r, s1, w1)"
    by blast
  have "r = Inr 10" using p ok by (simp add: write_post_def)
  then have a': "stream_write file_demo (Some rw_demo) (Some demo_bytes) 10 = Some (Inr 10, Some s1, w1)"
    using a by simp
  from window_after_transfer [OF h, where w = file_demo and src = demo_bytes and k = 10
      and ?s1.0 = s1 and ?w1.0 = w1] m(1) a'
  have A: "buf s1 \<noteq> None \<and> off s1 < cur s1 \<and> cur s1 \<le> brk s1" by blast
  from stream_read_post [OF h(1) m(2,3) h(3), of file_demo demo_dst]
  obtain r2 s2 w2 d2 where
    b: "stream_read file_demo (Some rw_demo) (Some demo_dst) 10 = Some (r2, Some s2, w2, Some d2)"
    and q: "read_post file_demo rw_demo demo_dst (cur rw_demo + min 10 (end_s rw_demo - cur rw_demo)) 0
              (r2, s2, w2, d2)"
    by blast
  have "r2 = Inr 10" using q ok by (simp add: read_post_def)
  then have b': "stream_read file_demo (Some rw_demo) (Some demo_dst) 10
       = Some (Inr 10, Some s2, w2, Some d2)"
    using b by simp
  from window_after_transfer [OF h, where w = file_demo and dst = demo_dst and k = 10
      and ?s1.0 = s2 and ?w1.0 = w2 and dp = "Some d2"] m(2) b'
  have B: "buf s2 \<noteq> None \<and> off s2 < cur s2 \<and> cur s2 \<le> brk s2" by simp
  have c: "stream_seek (Some win_demo) 5000 = (Inr 5000, Some (win_demo\<lparr>cur := 5000\<rparr>))"
    by (simp add: stream_seek_def win_demo_def rw_demo_def)
  have i: "stream_inv win_demo"
    by (simp add: win_demo_def rw_demo_def stream_inv_def pos_inv_def window_ok_def LONG_MAX_def)
  from window_after_transfer [OF i h(2,3), where p = 5000 and r = "Inr 5000"
      and ?s1.0 = "win_demo\<lparr>cur := 5000\<rparr>"] c
  have C: "buf (win_demo\<lparr>cur := 5000\<rparr>) = buf win_demo \<and> brk (win_demo\<lparr>cur := 5000\<rparr>) = brk win_demo"
    by blast
  show ?thesis using h m(1,2) a' A b' B c C by blast
qed

text \<open>
  The claim as stated fails in two reachable states: after a read of 10 bytes and a
  seek to 5000 the window of the first block is held and the cursor is beyond it, and
  after a write of a whole block the cursor is the window's bound.
\<close>

theorem window_counterexample:
  "reachable (win_demo\<lparr>cur := 5000\<rparr>)
   \<and> buf (win_demo\<lparr>cur := 5000\<rparr>) = Some (0, 4096)
   \<and> brk (win_demo\<lparr>cur := 5000\<rparr>) = 4096 \<and> cur (win_demo\<lparr>cur := 5000\<rparr>) = 5000
   \<and> reachable (win_demo\<lparr>cur := 4096\<rparr>)
   \<and> buf (win_demo\<lparr>cur := 4096\<rparr>) = Some (0, 4096)
   \<and> brk (win_demo\<lparr>cur := 4096\<rparr>) = 4096 \<and> cur (win_demo\<lparr>cur := 4096\<rparr>) = 4096"
proof -
  have r0: "reachable rw_demo" by (rule reach_open [OF demo_open])
  have l: "is_long 10" "is_long 4096" by (simp_all add: is_long_def LONG_MIN_def LONG_MAX_def)
  obtain w1 d where "stream_read file_demo (Some rw_demo) (Some demo_dst) 10
      = Some (Inr 10, Some win_demo, w1, d)"
    using demo_read_10 by blast
  then have r1: "reachable win_demo" by (rule reach_read [OF r0 l(1)])
  have "stream_seek (Some win_demo) 5000 = (Inr 5000, Some (win_demo\<lparr>cur := 5000\<rparr>))"
    by (simp add: stream_seek_def win_demo_def rw_demo_def)
  then have r2: "reachable (win_demo\<lparr>cur := 5000\<rparr>)" by (rule reach_seek [OF r1])
  obtain w2 where "stream_write file_demo (Some rw_demo) (Some demo_bytes) 4096
     = Some (Inr 4096, Some (win_demo\<lparr>cur := 4096\<rparr>), w2)"
    using demo_write_block by blast
  then have r3: "reachable (win_demo\<lparr>cur := 4096\<rparr>)" by (rule reach_write [OF r0 l(2)])
  show ?thesis using r2 r3 by (simp add: win_demo_def)
qed

subsection \<open>The NULL handle\<close>

text \<open>
  Claim C10. On a NULL stream, \<open>stream_write\<close>, \<open>stream_read\<close>, \<open>stream_seek\<close>,
  \<open>stream_tell\<close>, \<open>stream_end\<close> and \<open>stream_sync\<close> fail with \<open>EINVAL\<close>, which is the
  return value \<open>-1\<close>, and leave the file and the caller's buffer as they were;
  \<open>stream_close\<close> does nothing.
\<close>

theorem null_handle:
  "stream_write w None srcp n = Some (Inl EINVAL, None, w)
   \<and> stream_read w None dstp n = Some (Inl EINVAL, None, w, dstp)
   \<and> stream_seek None pos = (Inl EINVAL, None)
   \<and> stream_tell None = Inl EINVAL
   \<and> stream_end None = Inl EINVAL
   \<and> stream_sync w None = (Inl EINVAL, None, w)
   \<and> stream_close w None = w
   \<and> retval (Inl EINVAL) = - 1"
  by (simp add: stream_write_def stream_read_def stream_seek_def stream_tell_def stream_end_def
      stream_sync_def stream_close_def retval_def)

end
